theory Spec2Isabelle
  imports Complex_Main "HOL-Library.AList"
begin

section \<open>Python strings\<close>

text \<open>
  A Python \<open>str\<close> is modelled as a \<^typ>\<open>string\<close>, one \<^typ>\<open>char\<close> per code point.
  The classifications below are Python's for the ASCII range: \<open>str.isspace\<close> (which
  \<open>str.strip\<close>, \<open>str.split\<close> and the regular expression class \<open>\s\<close> share),
  the word characters of \<open>\b\<close> and \<open>\w\<close>, and \<open>str.lower\<close>. A code point above 127
  is left alone by \<open>py_lower\<close> and is neither whitespace nor a word character here.
\<close>

definition code :: "char \<Rightarrow> nat" where
  "code c = of_char c"

definition is_space :: "char \<Rightarrow> bool" where
  "is_space c = ((9 \<le> code c \<and> code c \<le> 13) \<or> (28 \<le> code c \<and> code c \<le> 32))"

definition is_lower :: "char \<Rightarrow> bool" where
  "is_lower c = (97 \<le> code c \<and> code c \<le> 122)"

definition is_upper :: "char \<Rightarrow> bool" where
  "is_upper c = (65 \<le> code c \<and> code c \<le> 90)"

definition is_digit :: "char \<Rightarrow> bool" where
  "is_digit c = (48 \<le> code c \<and> code c \<le> 57)"

definition is_word_char :: "char \<Rightarrow> bool" where
  "is_word_char c = (is_lower c \<or> is_upper c \<or> is_digit c \<or> c = CHR ''_'')"

definition lower_char :: "char \<Rightarrow> char" where
  "lower_char c =
     (case map_of (zip ''ABCDEFGHIJKLMNOPQRSTUVWXYZ'' ''abcdefghijklmnopqrstuvwxyz'') c of
        Some d \<Rightarrow> d
      | None \<Rightarrow> c)"

definition py_lower :: "string \<Rightarrow> string" where
  "py_lower s = map lower_char s"

definition py_strip :: "string \<Rightarrow> string" where
  "py_strip s = rev (dropWhile is_space (rev (dropWhile is_space s)))"

text \<open>\<open>s.split()\<close>: the maximal runs of characters that are not whitespace.\<close>

fun split_acc :: "string \<Rightarrow> string \<Rightarrow> string list" where
  "split_acc cur [] = (if cur = [] then [] else [rev cur])"
| "split_acc cur (c # cs) =
     (if is_space c then (if cur = [] then split_acc [] cs else rev cur # split_acc [] cs)
      else split_acc (c # cur) cs)"

definition py_split :: "string \<Rightarrow> string list" where
  "py_split s = split_acc [] s"

text \<open>\<open>s.startswith(p)\<close> and \<open>p in s\<close>.\<close>

fun starts_with :: "string \<Rightarrow> string \<Rightarrow> bool" where
  "starts_with s [] = True"
| "starts_with [] (p # ps) = False"
| "starts_with (c # cs) (p # ps) = (c = p \<and> starts_with cs ps)"

fun py_in :: "string \<Rightarrow> string \<Rightarrow> bool" where
  "py_in p [] = (p = [])"
| "py_in p (c # cs) = (starts_with (c # cs) p \<or> py_in p cs)"

text \<open>\<open>s.count(c)\<close> for a single character.\<close>

definition count_char :: "char \<Rightarrow> string \<Rightarrow> nat" where
  "count_char c s = length (filter (\<lambda>d. d = c) s)"

text \<open>\<open>str(n)\<close> for an integer: decimal digits, a minus sign when negative.\<close>

function str_nat :: "nat \<Rightarrow> string" where
  "str_nat n =
     (if n < 10 then [''0123456789'' ! n]
      else str_nat (n div 10) @ [''0123456789'' ! (n mod 10)])"
  by pat_completeness auto
termination
  by (relation "measure id") auto

definition str_int :: "int \<Rightarrow> string" where
  "str_int i = (if i < 0 then CHR ''-'' # str_nat (nat (- i)) else str_nat (nat i))"

declare str_nat.simps [simp del]

section \<open>Regular expressions of the source\<close>

text \<open>
  \<open>\b\<close> holds between two positions when exactly one of the neighbouring characters is a
  word character; the start and the end of the text count as non-word.
\<close>

definition is_word_opt :: "char option \<Rightarrow> bool" where
  "is_word_opt c = (case c of None \<Rightarrow> False | Some d \<Rightarrow> is_word_char d)"

definition word_boundary :: "char option \<Rightarrow> char option \<Rightarrow> bool" where
  "word_boundary prev nxt = (is_word_opt prev \<noteq> is_word_opt nxt)"

definition first_char :: "string \<Rightarrow> char option" where
  "first_char s = (case s of [] \<Rightarrow> None | c # _ \<Rightarrow> Some c)"

text \<open>
  \<open>re.findall(r'\b[a-z]{3,}\b', s)\<close>. The greedy run of lowercase letters either ends at
  a word boundary or, backtracking, ends between two letters where \<open>\b\<close> fails; so a match
  is a maximal run. \<open>prev\<close> is the character before the current position.
\<close>

function findall_words :: "char option \<Rightarrow> string \<Rightarrow> string list" where
  "findall_words prev [] = []"
| "findall_words prev (c # cs) =
     (if word_boundary prev (Some c)
         \<and> 3 \<le> length (takeWhile is_lower (c # cs))
         \<and> word_boundary (Some (last (takeWhile is_lower (c # cs))))
               (first_char (dropWhile is_lower (c # cs)))
      then takeWhile is_lower (c # cs)
             # findall_words (Some (last (takeWhile is_lower (c # cs))))
                 (dropWhile is_lower (c # cs))
      else findall_words (Some c) cs)"
  by pat_completeness auto
termination
proof (relation "measure (\<lambda>(prev, s). length s)", goal_cases)
  case 1
  show ?case by simp
next
  case (2 prev c cs)
  have "length (takeWhile is_lower (c # cs)) + length (dropWhile is_lower (c # cs))
          = length (c # cs)"
    by (metis length_append takeWhile_dropWhile_id)
  with 2 show ?case by simp
next
  case (3 prev c cs)
  show ?case by simp
qed

declare findall_words.simps [simp del]

text \<open>
  \<open>len(re.findall(r'\b(w1|...|wn)\b', s))\<close> for literal, non-empty alternatives: at a
  position with a word boundary before it, the alternatives are tried in order, each
  needing a word boundary after it; after a match the scan resumes behind it.
\<close>

fun first_alt :: "string \<Rightarrow> string list \<Rightarrow> string option" where
  "first_alt s [] = None"
| "first_alt s (a # as) =
     (if a \<noteq> [] \<and> starts_with s a
         \<and> word_boundary (Some (last a)) (first_char (drop (length a) s))
      then Some a else first_alt s as)"

definition match_here :: "string list \<Rightarrow> char option \<Rightarrow> string \<Rightarrow> string option" where
  "match_here alts prev s =
     (if word_boundary prev (first_char s) then first_alt s alts else None)"

lemma first_alt_nonempty: "first_alt s as = Some a \<Longrightarrow> a \<noteq> []"
  by (induction as) (auto split: if_splits)

lemma match_here_nonempty: "match_here alts prev s = Some a \<Longrightarrow> a \<noteq> []"
  by (auto simp: match_here_def first_alt_nonempty split: if_splits)

function count_matches :: "string list \<Rightarrow> char option \<Rightarrow> string \<Rightarrow> nat" where
  "count_matches alts prev [] = 0"
| "count_matches alts prev (c # cs) =
     (case match_here alts prev (c # cs) of
        Some a \<Rightarrow> 1 + count_matches alts (Some (last a)) (drop (length a) (c # cs))
      | None \<Rightarrow> count_matches alts (Some c) cs)"
  by pat_completeness auto
termination
proof (relation "measure (\<lambda>(alts, prev, s). length s)", goal_cases)
  case 1
  show ?case by simp
next
  case (2 alts prev c cs)
  show ?case by simp
next
  case (3 alts prev c cs a)
  then have "a \<noteq> []" by (simp add: match_here_nonempty)
  then show ?case by (cases a) auto
qed

declare count_matches.simps [simp del]

text \<open>\<open>bool(re.search(r'\bw\b', s))\<close>.\<close>

definition search_word :: "string \<Rightarrow> string \<Rightarrow> bool" where
  "search_word w s = (0 < count_matches [w] None s)"

text \<open>
  \<open>re.split(r'[.!?]+\s+', s)\<close>. A separator starts at a terminal mark whose maximal run
  of marks is followed by whitespace, and takes all of that whitespace; the pieces between
  the separators are returned, the last one possibly empty.
\<close>

definition is_terminal :: "char \<Rightarrow> bool" where
  "is_terminal c = (c = CHR ''.'' \<or> c = CHR ''!'' \<or> c = CHR ''?'')"

definition match_sep :: "string \<Rightarrow> string option" where
  "match_sep s =
     (if takeWhile is_terminal s \<noteq> []
         \<and> takeWhile is_space (dropWhile is_terminal s) \<noteq> []
      then Some (dropWhile is_space (dropWhile is_terminal s)) else None)"

lemma match_sep_shorter: "match_sep s = Some r \<Longrightarrow> length r < length s"
proof -
  assume a: "match_sep s = Some r"
  then have r: "r = dropWhile is_space (dropWhile is_terminal s)"
    and t: "takeWhile is_terminal s \<noteq> []"
    by (auto simp: match_sep_def split: if_splits)
  have "length r \<le> length (dropWhile is_terminal s)"
    unfolding r by (rule length_dropWhile_le)
  moreover have "length (takeWhile is_terminal s) + length (dropWhile is_terminal s) = length s"
    by (metis length_append takeWhile_dropWhile_id)
  moreover from t have "0 < length (takeWhile is_terminal s)" by simp
  ultimately show ?thesis by linarith
qed

function re_split :: "string \<Rightarrow> string \<Rightarrow> string list" where
  "re_split cur [] = [rev cur]"
| "re_split cur (c # cs) =
     (case match_sep (c # cs) of
        Some rest \<Rightarrow> rev cur # re_split [] rest
      | None \<Rightarrow> re_split (c # cur) cs)"
  by pat_completeness auto
termination
proof (relation "measure (\<lambda>(cur, s). length s)", goal_cases)
  case 1
  show ?case by simp
next
  case (2 cur c cs)
  show ?case by simp
next
  case (3 cur c cs rest)
  then show ?case using match_sep_shorter [of "c # cs" rest] by simp
qed

declare re_split.simps [simp del]

section \<open>Text analysis primitives (\<open>app/utils/text_analysis.py\<close>)\<close>

definition stop_words :: "string list" where
  "stop_words =
     [''the'', ''is'', ''at'', ''which'', ''on'', ''a'', ''an'', ''and'', ''or'', ''but'',
      ''in'', ''with'', ''to'', ''for'', ''of'', ''as'', ''by'', ''that'', ''this'',
      ''from'', ''are'', ''was'', ''were'', ''been'', ''be'', ''have'', ''has'', ''had'',
      ''do'', ''does'', ''did'', ''will'', ''would'', ''could'', ''should'', ''may'',
      ''might'', ''can'', ''it'', ''its'', ''they'', ''them'', ''their'', ''we'', ''our'',
      ''you'', ''your'', ''i'', ''my'', ''me'', ''he'', ''she'', ''him'', ''her'']"

text \<open>
  \<open>collections.Counter\<close>: a dictionary in insertion order, here an association list whose
  keys stand in the order of their first occurrence. \<open>most_common(n)\<close> is the first \<open>n\<close>
  items of a stable sort by descending count.
\<close>

definition counter_add :: "string \<Rightarrow> (string \<times> nat) list \<Rightarrow> (string \<times> nat) list" where
  "counter_add w al =
     AList.update w (case map_of al w of None \<Rightarrow> 1 | Some n \<Rightarrow> n + 1) al"

definition counter :: "string list \<Rightarrow> (string \<times> nat) list" where
  "counter ws = fold counter_add ws []"

definition most_common :: "(string \<times> nat) list \<Rightarrow> nat \<Rightarrow> (string \<times> nat) list" where
  "most_common al n = take n (sort_key (\<lambda>item. - int (snd item)) al)"

definition filtered_words :: "string \<Rightarrow> string list" where
  "filtered_words text =
     filter (\<lambda>w. w \<notin> set stop_words) (findall_words None (py_lower text))"

definition extract_keywords :: "string \<Rightarrow> nat \<Rightarrow> string list" where
  "extract_keywords text top_n = map fst (most_common (counter (filtered_words text)) top_n)"

definition certainty_patterns :: "string list list" where
  "certainty_patterns =
     [[''clearly'', ''obviously'', ''definitely'', ''certainly'', ''surely'', ''must'', ''will''],
      [''always'', ''never'', ''absolutely'', ''undoubtedly'', ''unquestionably''],
      [''correct'', ''right'', ''true'', ''exact'', ''precise'']]"

definition hedging_patterns :: "string list list" where
  "hedging_patterns =
     [[''maybe'', ''perhaps'', ''possibly'', ''probably'', ''might'', ''could'', ''may''],
      [''uncertain'', ''unsure'', ''unclear'', ''ambiguous'', ''vague''],
      [''seems'', ''appears'', ''suggests'', ''indicates''],
      [''somewhat'', ''slightly'', ''fairly'', ''rather'', ''quite''],
      [''I think'', ''I believe'', ''I guess'', ''I assume'']]"

definition pattern_count :: "string list list \<Rightarrow> string \<Rightarrow> nat" where
  "pattern_count patterns text_lower =
     sum_list (map (\<lambda>alts. count_matches alts None text_lower) patterns)"

text \<open>
  The score is a Python float; it is modelled by the real number the arithmetic denotes.
  The last operation is the clamp \<open>max(0.0, min(1.0, confidence))\<close>.
\<close>

definition calculate_confidence :: "string \<Rightarrow> real" where
  "calculate_confidence text =
     (let text_lower = py_lower text;
          question_marks = count_char (CHR ''?'') text;
          certainty_count = pattern_count certainty_patterns text_lower;
          hedging_count = pattern_count hedging_patterns text_lower;
          base_confidence = 0.7;
          confidence = base_confidence + real certainty_count * 0.05
                         - real hedging_count * 0.08 - real question_marks * 0.05
      in max 0.0 (min 1.0 confidence))"

record cues =
  has_therefore :: bool
  has_since :: bool
  has_this :: bool
  has_that :: bool
  has_because :: bool
  has_so :: bool
  has_thus :: bool
  has_hence :: bool

definition detect_linguistic_cues :: "string \<Rightarrow> cues" where
  "detect_linguistic_cues text =
     (let text_lower = py_lower text in
      \<lparr> has_therefore = search_word ''therefore'' text_lower,
        has_since = search_word ''since'' text_lower,
        has_this = search_word ''this'' text_lower,
        has_that = search_word ''that'' text_lower,
        has_because = search_word ''because'' text_lower,
        has_so = search_word ''so'' text_lower,
        has_thus = search_word ''thus'' text_lower,
        has_hence = search_word ''hence'' text_lower \<rparr>)"

definition count_shared_keywords :: "string list \<Rightarrow> string list \<Rightarrow> nat" where
  "count_shared_keywords keywords1 keywords2 = card (set keywords1 \<inter> set keywords2)"

section \<open>Thought nodes (\<open>app/models/thought_node.py\<close>)\<close>

datatype thought_type = ANALYSIS | DECISION | VERIFICATION | ALTERNATIVE | IMPLEMENTATION

record position =
  pos_x :: int
  pos_y :: int

text \<open>
  The \<open>timestamp\<close> field, filled from the clock when the node is built and read by no
  operation of the parser, is left out.
\<close>

record thought_node =
  node_id :: string
  node_type :: thought_type
  content :: string
  confidence :: real
  node_keywords :: "string list"
  dependencies :: "string list"
  node_position :: position
  node_session_id :: string

section \<open>The thinking parser (\<open>app/services/thinking_parser.py\<close>)\<close>

record parser =
  parser_session_id :: string
  node_counter :: nat
  recent_nodes :: "thought_node list"
  x_position :: int
  y_position :: int
  accumulated_text :: string

definition new_parser :: "string \<Rightarrow> parser" where
  "new_parser sid =
     \<lparr> parser_session_id = sid, node_counter = 0, recent_nodes = [],
       x_position = 0, y_position = 0, accumulated_text = [] \<rparr>"

definition format_node_id :: "string \<Rightarrow> nat \<Rightarrow> string" where
  "format_node_id sid n = sid @ ''_node_'' @ str_nat n"

definition generate_node_id :: "parser \<Rightarrow> parser \<times> string" where
  "generate_node_id p =
     (let p' = p\<lparr>node_counter := node_counter p + 1\<rparr>
      in (p', format_node_id (parser_session_id p') (node_counter p')))"

definition analysis_keywords :: "string list" where
  "analysis_keywords =
     [''need to'', ''first'', ''let's'', ''consider'', ''analyze'',
      ''understand'', ''examine'', ''look at'', ''review'', ''assess'']"

definition decision_keywords :: "string list" where
  "decision_keywords =
     [''will use'', ''best approach'', ''should'', ''choose'',
      ''decide'', ''select'', ''opt for'', ''go with'', ''prefer'']"

definition verification_keywords :: "string list" where
  "verification_keywords =
     [''check'', ''verify'', ''confirm'', ''ensure'', ''test'',
      ''validate'', ''prove'', ''demonstrate'', ''show that'']"

definition alternative_keywords :: "string list" where
  "alternative_keywords =
     [''alternatively'', ''another option'', ''could also'', ''or'',
      ''instead'', ''different approach'', ''other way'', ''else'']"

definition implementation_keywords :: "string list" where
  "implementation_keywords =
     [''implement'', ''code'', ''function'', ''class'', ''def'',
      ''create'', ''build'', ''write'', ''develop'', ''construct'']"

definition type_keywords :: "thought_type \<Rightarrow> string list" where
  "type_keywords ty =
     (case ty of
        ANALYSIS \<Rightarrow> analysis_keywords
      | DECISION \<Rightarrow> decision_keywords
      | VERIFICATION \<Rightarrow> verification_keywords
      | ALTERNATIVE \<Rightarrow> alternative_keywords
      | IMPLEMENTATION \<Rightarrow> implementation_keywords)"

text \<open>\<open>sum(1 for kw in kws if kw in text_lower)\<close>: the keywords that occur, each once.\<close>

definition keyword_score :: "string list \<Rightarrow> string \<Rightarrow> nat" where
  "keyword_score kws text_lower = length (filter (\<lambda>kw. py_in kw text_lower) kws)"

text \<open>The dictionary \<open>scores\<close>, in the order its literal lists the five types.\<close>

definition scores :: "string \<Rightarrow> (thought_type \<times> nat) list" where
  "scores text_lower =
     map (\<lambda>ty. (ty, keyword_score (type_keywords ty) text_lower))
       [IMPLEMENTATION, VERIFICATION, DECISION, ALTERNATIVE, ANALYSIS]"

text \<open>\<open>max(items, key=...)\<close> keeps the first item that has the largest key.\<close>

fun max_by_score :: "(thought_type \<times> nat) \<Rightarrow> (thought_type \<times> nat) list \<Rightarrow> (thought_type \<times> nat)" where
  "max_by_score best [] = best"
| "max_by_score best (item # items) =
     max_by_score (if snd best < snd item then item else best) items"

definition classify_thought_type :: "string \<Rightarrow> thought_type" where
  "classify_thought_type text =
     (let text_lower = py_lower text;
          max_type = max_by_score (hd (scores text_lower)) (tl (scores text_lower))
      in if 0 < snd max_type then fst max_type else ANALYSIS)"

text \<open>The loop of \<open>split_into_segments\<close> over the sentences, with its two variables.\<close>

fun segment_loop :: "nat \<Rightarrow> string list \<Rightarrow> string list \<Rightarrow> string \<Rightarrow> string list \<times> string" where
  "segment_loop min_words [] segments current_segment = (segments, current_segment)"
| "segment_loop min_words (sentence # sentences) segments current_segment =
     (let sentence = py_strip sentence in
      if sentence = [] then segment_loop min_words sentences segments current_segment
      else
        let current_segment =
              (if current_segment \<noteq> [] then current_segment @ ''. '' @ sentence else sentence)
        in if min_words \<le> length (py_split current_segment)
           then segment_loop min_words sentences (segments @ [current_segment]) []
           else segment_loop min_words sentences segments current_segment)"

definition split_into_segments :: "string \<Rightarrow> nat \<Rightarrow> string list" where
  "split_into_segments text min_words =
     (let sentences = re_split [] text;
          (segments, current_segment) = segment_loop min_words sentences [] []
      in if current_segment \<noteq> [] \<and> min_words div 2 \<le> length (py_split current_segment)
         then segments @ [current_segment] else segments)"

definition referential_cue :: "cues \<Rightarrow> bool" where
  "referential_cue c =
     (has_this c \<or> has_that c \<or> has_therefore c \<or> has_since c \<or> has_because c)"

text \<open>\<open>xs[-3:]\<close>\<close>

definition last3 :: "'a list \<Rightarrow> 'a list" where
  "last3 xs = drop (length xs - 3) xs"

definition add_shared :: "thought_node \<Rightarrow> thought_node \<Rightarrow> string list \<Rightarrow> string list" where
  "add_shared node recent_node deps =
     (if 2 \<le> count_shared_keywords (node_keywords node) (node_keywords recent_node)
         \<and> node_id recent_node \<notin> set deps
      then deps @ [node_id recent_node] else deps)"

definition detect_dependencies :: "parser \<Rightarrow> thought_node \<Rightarrow> string list" where
  "detect_dependencies p node =
     (let c = detect_linguistic_cues (content node);
          deps0 = (if referential_cue c \<and> recent_nodes p \<noteq> []
                   then [node_id (last (recent_nodes p))] else []);
          deps1 = fold (add_shared node) (last3 (recent_nodes p)) deps0
      in if deps1 = [] \<and> recent_nodes p \<noteq> []
         then deps1 @ [node_id (last (recent_nodes p))] else deps1)"

definition generate_position :: "parser \<Rightarrow> parser \<times> position" where
  "generate_position p =
     (let pos = \<lparr> pos_x = x_position p, pos_y = y_position p \<rparr>;
          p1 = p\<lparr>x_position := x_position p + 200\<rparr>;
          p2 = (if node_counter p1 mod 3 = 0
                then p1\<lparr>y_position := y_position p1 + 100, x_position := 0\<rparr> else p1)
      in (p2, pos))"

text \<open>\<open>_create_node_from_segment\<close>\<close>

definition create_node_from_segment :: "parser \<Rightarrow> string \<Rightarrow> parser \<times> thought_node option" where
  "create_node_from_segment p segment =
     (if segment = [] \<or> length (py_strip segment) < 10 then (p, None)
      else
        let (p1, nid) = generate_node_id p;
            ty = classify_thought_type segment;
            kws = extract_keywords segment 5;
            conf = calculate_confidence segment;
            (p2, pos) = generate_position p1;
            node = \<lparr> node_id = nid, node_type = ty, content = py_strip segment,
                     confidence = conf, node_keywords = kws, dependencies = [],
                     node_position = pos, node_session_id = parser_session_id p2 \<rparr>;
            node = node\<lparr>dependencies := detect_dependencies p2 node\<rparr>;
            recent = recent_nodes p2 @ [node];
            recent = (if 5 < length recent then tl recent else recent)
        in (p2\<lparr>recent_nodes := recent\<rparr>, Some node))"

text \<open>The loop of \<open>parse_incremental\<close> over the complete segments, yielding the nodes.\<close>

fun create_nodes :: "parser \<Rightarrow> string list \<Rightarrow> parser \<times> thought_node list" where
  "create_nodes p [] = (p, [])"
| "create_nodes p (segment # segments) =
     (case create_node_from_segment p segment of
        (p', None) \<Rightarrow> create_nodes p' segments
      | (p', Some node) \<Rightarrow>
          (case create_nodes p' segments of (p'', nodes) \<Rightarrow> (p'', node # nodes)))"

definition parse_incremental :: "parser \<Rightarrow> string \<Rightarrow> parser \<times> thought_node list" where
  "parse_incremental p text_chunk =
     (let p1 = p\<lparr>accumulated_text := accumulated_text p @ text_chunk\<rparr>;
          segments = split_into_segments (accumulated_text p1) 20
      in if 1 < length segments
         then create_nodes (p1\<lparr>accumulated_text := last segments\<rparr>) (butlast segments)
         else (p1, []))"

definition finalize :: "parser \<Rightarrow> parser \<times> thought_node list" where
  "finalize p =
     (if py_strip (accumulated_text p) \<noteq> []
      then (case create_node_from_segment p (accumulated_text p) of
              (p', None) \<Rightarrow> (p', [])
            | (p', Some node) \<Rightarrow> (p', [node]))
      else (p, []))"

text \<open>
  A parser used as \<open>run_analysis\<close> uses it: fed the chunks in their order of arrival,
  then finalized once. The result is every node yielded, in order.
\<close>

fun feed :: "parser \<Rightarrow> string list \<Rightarrow> parser \<times> thought_node list" where
  "feed p [] = (p, [])"
| "feed p (chunk # chunks) =
     (case parse_incremental p chunk of
        (p', nodes) \<Rightarrow> (case feed p' chunks of (p'', nodes') \<Rightarrow> (p'', nodes @ nodes')))"

definition feed_and_finalize :: "parser \<Rightarrow> string list \<Rightarrow> parser \<times> thought_node list" where
  "feed_and_finalize p chunks =
     (case feed p chunks of
        (p', nodes) \<Rightarrow> (case finalize p' of (p'', nodes') \<Rightarrow> (p'', nodes @ nodes')))"

section \<open>Session state (\<open>app/services/session_manager.py\<close>)\<close>

text \<open>
  A \<open>datetime\<close> is the number of microseconds since the epoch. A Python dictionary is
  an association list in insertion order: \<^const>\<open>map_of\<close> looks a key up,
  \<^const>\<open>AList.update\<close> assigns in place or appends, \<^const>\<open>AList.delete\<close> removes
  the key. A dictionary never holds a key twice.
\<close>

record session =
  session_id :: string
  ip_address :: string
  status :: string
  created_at :: int
  thought_nodes :: "thought_node list"
  tokens_used :: int
  problem_text :: string
  solution_text :: string
  error_message :: "string option"

definition new_session :: "string \<Rightarrow> string \<Rightarrow> int \<Rightarrow> session" where
  "new_session sid ip now =
     \<lparr> session_id = sid, ip_address = ip, status = ''initializing'', created_at = now,
       thought_nodes = [], tokens_used = 0, problem_text = [], solution_text = [],
       error_message = None \<rparr>"

record session_manager =
  sessions :: "(string \<times> session) list"
  ip_sessions :: "(string \<times> string list) list"
  max_concurrent_per_ip :: int
  cleanup_hours :: int

definition new_session_manager :: "int \<Rightarrow> int \<Rightarrow> session_manager" where
  "new_session_manager cap h =
     \<lparr> sessions = [], ip_sessions = [], max_concurrent_per_ip = cap, cleanup_hours = h \<rparr>"

text \<open>An exception is its class and its message.\<close>

datatype exception_class = Exception | KeyError | OverflowError

datatype py_exception = Raised exception_class string

definition get_session :: "session_manager \<Rightarrow> string \<Rightarrow> session option" where
  "get_session m sid = map_of (sessions m) sid"

text \<open>
  The keyword arguments of \<open>update_session\<close>. The loop assigns every keyword for which
  \<open>hasattr(session, key)\<close> holds: each of the nine attributes that \<open>Session.__init__\<close>
  sets can be assigned, not only the five the documentation names. \<open>Unknown_key k\<close> is a
  keyword the session has no attribute for, which the loop skips. Each value has the type
  of its attribute. Keywords that name the method \<open>to_dict\<close> or an attribute inherited
  from \<open>object\<close> are not modelled.
\<close>

datatype session_kwarg =
    Session_id string
  | Ip_address string
  | Status string
  | Created_at int
  | Thought_nodes "thought_node list"
  | Tokens_used int
  | Problem_text string
  | Solution_text string
  | Error_message "string option"
  | Unknown_key string

fun set_field :: "session_kwarg \<Rightarrow> session \<Rightarrow> session" where
  "set_field (Session_id v) s = s\<lparr>session_id := v\<rparr>"
| "set_field (Ip_address v) s = s\<lparr>ip_address := v\<rparr>"
| "set_field (Status v) s = s\<lparr>status := v\<rparr>"
| "set_field (Created_at v) s = s\<lparr>created_at := v\<rparr>"
| "set_field (Thought_nodes v) s = s\<lparr>thought_nodes := v\<rparr>"
| "set_field (Tokens_used v) s = s\<lparr>tokens_used := v\<rparr>"
| "set_field (Problem_text v) s = s\<lparr>problem_text := v\<rparr>"
| "set_field (Solution_text v) s = s\<lparr>solution_text := v\<rparr>"
| "set_field (Error_message v) s = s\<lparr>error_message := v\<rparr>"
| "set_field (Unknown_key k) s = s"


definition update_session :: "session_manager \<Rightarrow> string \<Rightarrow> session_kwarg list \<Rightarrow> session_manager" where
  "update_session m sid kwargs =
     (case get_session m sid of
        None \<Rightarrow> m
      | Some s \<Rightarrow> m\<lparr>sessions := AList.update sid (fold set_field kwargs s) (sessions m)\<rparr>)"

definition add_thought_node :: "session_manager \<Rightarrow> string \<Rightarrow> thought_node \<Rightarrow> session_manager" where
  "add_thought_node m sid thought_node =
     (case get_session m sid of
        None \<Rightarrow> m
      | Some s \<Rightarrow>
          m\<lparr>sessions :=
              AList.update sid (s\<lparr>thought_nodes := thought_nodes s @ [thought_node]\<rparr>)
                (sessions m)\<rparr>)"

definition is_active :: "session_manager \<Rightarrow> string \<Rightarrow> bool" where
  "is_active m sid =
     (case map_of (sessions m) sid of
        None \<Rightarrow> False
      | Some s \<Rightarrow> status s \<notin> set [''completed'', ''error''])"

text \<open>\<open>self.ip_sessions.get(ip_address, [])\<close>\<close>

definition tracked :: "session_manager \<Rightarrow> string \<Rightarrow> string list" where
  "tracked m ip = (case map_of (ip_sessions m) ip of None \<Rightarrow> [] | Some ids \<Rightarrow> ids)"

text \<open>\<open>_get_active_sessions_for_ip\<close>, which also rewrites the list it has read.\<close>

definition get_active_sessions_for_ip :: "session_manager \<Rightarrow> string \<Rightarrow> session_manager \<times> string list" where
  "get_active_sessions_for_ip m ip =
     (let active = filter (is_active m) (tracked m ip);
          m' = (if map_of (ip_sessions m) ip \<noteq> None
                then m\<lparr>ip_sessions := AList.update ip active (ip_sessions m)\<rparr> else m)
      in (m', active))"

definition rate_limit_message :: "int \<Rightarrow> string" where
  "rate_limit_message cap =
     ''Rate limit exceeded: Maximum '' @ str_int cap @ '' concurrent sessions per IP''"

text \<open>
  \<open>create_session\<close>. The identifier drawn by \<open>generate_session_id\<close> and the clock read
  by the constructor of \<open>Session\<close> are inputs. The manager is returned in both outcomes,
  since the rate limit check has already rewritten the tracking list when it raises.
\<close>

definition create_session :: "session_manager \<Rightarrow> string \<Rightarrow> string \<Rightarrow> int \<Rightarrow> session_manager \<times> (py_exception + session)" where
  "create_session m ip new_id now =
     (case get_active_sessions_for_ip m ip of
        (m1, active_sessions) \<Rightarrow>
          if max_concurrent_per_ip m1 \<le> int (length active_sessions)
          then (m1, Inl (Raised Exception (rate_limit_message (max_concurrent_per_ip m1))))
          else
            let s = new_session new_id ip now;
                m2 = m1\<lparr>sessions := AList.update new_id s (sessions m1)\<rparr>;
                m3 = m2\<lparr>ip_sessions := AList.update ip (tracked m2 ip @ [new_id]) (ip_sessions m2)\<rparr>
            in (m3, Inr s))"

text \<open>One round of the removal loop of \<open>cleanup_old_sessions\<close>.\<close>

definition remove_session :: "session_manager \<Rightarrow> string \<Rightarrow> py_exception + session_manager" where
  "remove_session m sid =
     (case map_of (sessions m) sid of
        None \<Rightarrow> Inl (Raised KeyError sid)
      | Some s \<Rightarrow>
          let m1 = (if map_of (ip_sessions m) (ip_address s) \<noteq> None
                       \<and> sid \<in> set (tracked m (ip_address s))
                    then m\<lparr>ip_sessions :=
                           AList.update (ip_address s) (remove1 sid (tracked m (ip_address s)))
                             (ip_sessions m)\<rparr>
                    else m)
          in Inr (m1\<lparr>sessions := AList.delete sid (sessions m1)\<rparr>))"

fun remove_sessions :: "session_manager \<Rightarrow> string list \<Rightarrow> py_exception + session_manager" where
  "remove_sessions m [] = Inr m"
| "remove_sessions m (sid # sids) =
     (case remove_session m sid of
        Inl e \<Rightarrow> Inl e
      | Inr m' \<Rightarrow> remove_sessions m' sids)"

text \<open>
  Dates and durations of the standard library. A \<open>datetime\<close> lies between
  \<open>datetime.min\<close> (year 1) and \<open>datetime.max\<close> (the last microsecond of year 9999);
  a \<open>timedelta\<close> has at most 999999999 days in either direction. \<open>timedelta(hours=h)\<close>
  raises \<open>OverflowError\<close> when its number of days, \<open>h // 24\<close>, does not fit a C int or
  is out of that range, and subtracting a duration from a date raises \<open>OverflowError\<close>
  when the result is not a \<open>datetime\<close>. The messages are those of CPython.
\<close>

definition datetime_min :: int where
  "datetime_min = - 62135596800000000"

definition datetime_max :: int where
  "datetime_max = 253402300799999999"

definition hours :: "int \<Rightarrow> int" where
  "hours h = h * 3600000000"

definition timedelta_hours :: "int \<Rightarrow> py_exception + int" where
  "timedelta_hours h =
     (let days = h div 24 in
      if days < - 2147483648 \<or> 2147483647 < days
      then Inl (Raised OverflowError ''Python int too large to convert to C int'')
      else if days < - 999999999 \<or> 999999999 < days
      then Inl (Raised OverflowError
                  (''days='' @ str_int days @ ''; must have magnitude <= 999999999''))
      else Inr (hours h))"

definition datetime_sub :: "int \<Rightarrow> int \<Rightarrow> py_exception + int" where
  "datetime_sub t delta =
     (if t - delta < datetime_min \<or> datetime_max < t - delta
      then Inl (Raised OverflowError ''date value out of range'')
      else Inr (t - delta))"

text \<open>
  \<open>cleanup_old_sessions\<close>. The clock is an input. Nothing has been removed when the
  computation of the cutoff raises.
\<close>

definition cleanup_old_sessions :: "session_manager \<Rightarrow> int \<Rightarrow> py_exception + (session_manager \<times> nat)" where
  "cleanup_old_sessions m now =
     (case timedelta_hours (cleanup_hours m) of
        Inl e \<Rightarrow> Inl e
      | Inr delta \<Rightarrow>
          (case datetime_sub now delta of
             Inl e \<Rightarrow> Inl e
           | Inr cutoff_time \<Rightarrow>
               let sessions_to_remove =
                     map fst (filter (\<lambda>(sid, s). created_at s < cutoff_time) (sessions m))
               in case remove_sessions m sessions_to_remove of
                    Inl e \<Rightarrow> Inl e
                  | Inr m' \<Rightarrow> Inr (m', length sessions_to_remove)))"

section \<open>Event broadcaster (\<open>app/services/websocket_manager.py\<close>)\<close>

text \<open>
  A connection is an identity; whether its \<open>send_json\<close> raises is given by a predicate
  of the environment, and what an operation has delivered is returned as the list of
  (connection, message) pairs in the order of delivery. A message is a JSON object, with its
  keys in order. The clock is an input, already rendered as a string.
\<close>

type_synonym websocket = nat

datatype json = JString string | JNumber int | JObject "(string \<times> json) list"

type_synonym message = "(string \<times> json) list"

text \<open>The payload handed to \<open>broadcast\<close>: a dictionary, or any other value with its \<open>str\<close>.\<close>

datatype payload = Dict "(string \<times> json) list" | Other string

record websocket_manager =
  active_connections :: "(string \<times> websocket list) list"

definition send_personal_message :: "(websocket \<Rightarrow> bool) \<Rightarrow> websocket \<Rightarrow> message \<Rightarrow> (websocket \<times> message) list" where
  "send_personal_message raises ws msg = (if raises ws then [] else [(ws, msg)])"

definition connected_message :: "string \<Rightarrow> string \<Rightarrow> message" where
  "connected_message sid timestamp =
     [(''event_type'', JString ''connected''),
      (''session_id'', JString sid),
      (''message'', JString ''Connected to thinking stream''),
      (''timestamp'', JString timestamp)]"

definition connect :: "websocket_manager \<Rightarrow> (websocket \<Rightarrow> bool) \<Rightarrow> string \<Rightarrow> string \<Rightarrow> websocket \<Rightarrow> websocket_manager \<times> (websocket \<times> message) list" where
  "connect m raises timestamp sid ws =
     (let conns = (if map_of (active_connections m) sid = None
                   then AList.update sid [] (active_connections m) else active_connections m);
          conns = AList.update sid
                    ((case map_of conns sid of None \<Rightarrow> [] | Some ws_list \<Rightarrow> ws_list) @ [ws]) conns
      in (m\<lparr>active_connections := conns\<rparr>,
          send_personal_message raises ws (connected_message sid timestamp)))"

definition disconnect :: "websocket_manager \<Rightarrow> string \<Rightarrow> websocket \<Rightarrow> websocket_manager" where
  "disconnect m sid ws =
     (case map_of (active_connections m) sid of
        None \<Rightarrow> m
      | Some conns \<Rightarrow>
          let conns' = (if ws \<in> set conns then remove1 ws conns else conns)
          in if conns' = []
             then m\<lparr>active_connections := AList.delete sid (active_connections m)\<rparr>
             else m\<lparr>active_connections := AList.update sid conns' (active_connections m)\<rparr>)"

text \<open>\<open>WebSocketEvent(...).model_dump(mode='json')\<close>: the four fields of the model.\<close>

definition event_message :: "string \<Rightarrow> string \<Rightarrow> payload \<Rightarrow> string \<Rightarrow> message" where
  "event_message event_type sid data timestamp =
     [(''event_type'', JString event_type),
      (''session_id'', JString sid),
      (''data'', (case data of Dict d \<Rightarrow> JObject d
                               | Other str \<Rightarrow> JObject [(''content'', JString str)])),
      (''timestamp'', JString timestamp)]"

text \<open>The sending loop: the deliveries made and the connections that failed.\<close>

fun send_all :: "(websocket \<Rightarrow> bool) \<Rightarrow> message \<Rightarrow> websocket list \<Rightarrow> (websocket \<times> message) list \<times> websocket list" where
  "send_all raises msg [] = ([], [])"
| "send_all raises msg (connection # connections) =
     (case send_all raises msg connections of
        (delivered, disconnected) \<Rightarrow>
          if raises connection then (delivered, connection # disconnected)
          else ((connection, msg) # delivered, disconnected))"

definition broadcast :: "websocket_manager \<Rightarrow> (websocket \<Rightarrow> bool) \<Rightarrow> string \<Rightarrow> string \<Rightarrow> string \<Rightarrow> payload \<Rightarrow> websocket_manager \<times> (websocket \<times> message) list" where
  "broadcast m raises timestamp sid event_type data =
     (case map_of (active_connections m) sid of
        None \<Rightarrow> (m, [])
      | Some conns \<Rightarrow>
          (case send_all raises (event_message event_type sid data timestamp) conns of
             (delivered, disconnected) \<Rightarrow>
               (fold (\<lambda>connection m'. disconnect m' sid connection) disconnected m, delivered)))"

definition broadcast_new_thought :: "websocket_manager \<Rightarrow> (websocket \<Rightarrow> bool) \<Rightarrow> string \<Rightarrow> string \<Rightarrow> (string \<times> json) list \<Rightarrow> websocket_manager \<times> (websocket \<times> message) list" where
  "broadcast_new_thought m raises timestamp sid thought_node =
     broadcast m raises timestamp sid ''new_thought'' (Dict thought_node)"

definition broadcast_thinking_complete :: "websocket_manager \<Rightarrow> (websocket \<Rightarrow> bool) \<Rightarrow> string \<Rightarrow> string \<Rightarrow> (string \<times> json) list \<Rightarrow> websocket_manager \<times> (websocket \<times> message) list" where
  "broadcast_thinking_complete m raises timestamp sid summary =
     broadcast m raises timestamp sid ''thinking_complete'' (Dict summary)"

definition broadcast_solution_ready :: "websocket_manager \<Rightarrow> (websocket \<Rightarrow> bool) \<Rightarrow> string \<Rightarrow> string \<Rightarrow> (string \<times> json) list \<Rightarrow> websocket_manager \<times> (websocket \<times> message) list" where
  "broadcast_solution_ready m raises timestamp sid solution =
     broadcast m raises timestamp sid ''solution_ready'' (Dict solution)"

definition broadcast_error :: "websocket_manager \<Rightarrow> (websocket \<Rightarrow> bool) \<Rightarrow> string \<Rightarrow> string \<Rightarrow> string \<Rightarrow> string \<Rightarrow> websocket_manager \<times> (websocket \<times> message) list" where
  "broadcast_error m raises timestamp sid message_text error_type =
     broadcast m raises timestamp sid ''error''
       (Dict [(''error_message'', JString message_text), (''error_type'', JString error_type)])"

section \<open>Classification by keyword counts\<close>

text \<open>The score of a type on a text, and the rank of a type in the order of the dictionary.\<close>

definition type_score :: "thought_type \<Rightarrow> string \<Rightarrow> nat" where
  "type_score ty text = keyword_score (type_keywords ty) (py_lower text)"

definition priority :: "thought_type \<Rightarrow> nat" where
  "priority ty =
     (case ty of IMPLEMENTATION \<Rightarrow> 0 | VERIFICATION \<Rightarrow> 1 | DECISION \<Rightarrow> 2
               | ALTERNATIVE \<Rightarrow> 3 | ANALYSIS \<Rightarrow> 4)"

text \<open>
  The scoring as the specification words it, for comparison with the code: the number of
  non-overlapping occurrences of each keyword (what \<open>text_lower.count(kw)\<close> returns), summed
  over the keywords of the type. The choice among the five scores is the code's.
\<close>

function count_occurrences :: "string \<Rightarrow> string \<Rightarrow> nat" where
  "count_occurrences kw [] = 0"
| "count_occurrences kw (c # cs) =
     (if kw \<noteq> [] \<and> starts_with (c # cs) kw
      then 1 + count_occurrences kw (drop (length kw) (c # cs))
      else count_occurrences kw cs)"
  by pat_completeness auto
termination
  by (relation "measure (\<lambda>(kw, s). length s)") (auto simp: neq_Nil_conv)

declare count_occurrences.simps [simp del]

definition occurrence_score :: "string list \<Rightarrow> string \<Rightarrow> nat" where
  "occurrence_score kws text_lower =
     sum_list (map (\<lambda>kw. count_occurrences kw text_lower) kws)"

definition occurrence_scores :: "string \<Rightarrow> (thought_type \<times> nat) list" where
  "occurrence_scores text_lower =
     map (\<lambda>ty. (ty, occurrence_score (type_keywords ty) text_lower))
       [IMPLEMENTATION, VERIFICATION, DECISION, ALTERNATIVE, ANALYSIS]"

definition classify_by_occurrences :: "string \<Rightarrow> thought_type" where
  "classify_by_occurrences text =
     (let text_lower = py_lower text;
          max_type = max_by_score (hd (occurrence_scores text_lower))
                       (tl (occurrence_scores text_lower))
      in if 0 < snd max_type then fst max_type else ANALYSIS)"

section \<open>Frequencies and built nodes\<close>

text \<open>How often a word stands among the filtered words of a text.\<close>

definition word_frequency :: "string \<Rightarrow> string \<Rightarrow> nat" where
  "word_frequency text w = count_list (filtered_words text) w"

section \<open>Invariants of a parsing session\<close>

text \<open>
  \<open>parser_inv sid p prev\<close>: the parser \<open>p\<close> of session \<open>sid\<close> has so far produced the nodes
  \<open>prev\<close>, in this order. Its counter is their number, the \<open>k\<close>-th of them carries the
  identifier built from \<open>k\<close>, and its window of recent nodes holds some of them, at least
  one as soon as there is one.
\<close>

definition parser_inv :: "string \<Rightarrow> parser \<Rightarrow> thought_node list \<Rightarrow> bool" where
  "parser_inv sid p prev \<longleftrightarrow>
     parser_session_id p = sid \<and> node_counter p = length prev
     \<and> set (recent_nodes p) \<subseteq> set prev
     \<and> (prev \<noteq> [] \<longrightarrow> recent_nodes p \<noteq> [])
     \<and> (\<forall>k < length prev. node_id (prev ! k) = format_node_id sid (k + 1))"

text \<open>
  \<open>deps_ok prev\<close>: every node but the first has a dependency, and every dependency of a
  node is the identifier of a node that stands before it.
\<close>

definition deps_ok :: "thought_node list \<Rightarrow> bool" where
  "deps_ok prev \<longleftrightarrow>
     (\<forall>k < length prev.
        (0 < k \<longrightarrow> dependencies (prev ! k) \<noteq> [])
        \<and> (\<forall>d \<in> set (dependencies (prev ! k)). \<exists>j < k. d = node_id (prev ! j)))"

section \<open>Sweeping, as a property of the store\<close>

text \<open>A session is old at \<open>now\<close> when it was created before \<open>now\<close> minus the retention.\<close>

definition is_old :: "session_manager \<Rightarrow> int \<Rightarrow> session \<Rightarrow> bool" where
  "is_old m now s = (created_at s < now - hours (cleanup_hours m))"

text \<open>
  The retention is a \<open>timedelta\<close> and the cutoff \<open>now - max_age\<close> is a \<open>datetime\<close>.
\<close>

definition cutoff_in_range :: "session_manager \<Rightarrow> int \<Rightarrow> bool" where
  "cutoff_in_range m now \<longleftrightarrow>
     - 999999999 \<le> cleanup_hours m div 24 \<and> cleanup_hours m div 24 \<le> 999999999
     \<and> datetime_min \<le> now - hours (cleanup_hours m)
     \<and> now - hours (cleanup_hours m) \<le> datetime_max"

section \<open>The per-IP cap, as a property of the store\<close>

text \<open>
  The number of sessions of an IP address in the store that are not in a terminal status.
\<close>

definition active_count :: "session_manager \<Rightarrow> string \<Rightarrow> nat" where
  "active_count m ip =
     length (filter (\<lambda>(sid, s). ip_address s = ip \<and> status s \<notin> set [''completed'', ''error''])
               (sessions m))"

text \<open>
  \<open>tracking_ok m\<close>: the index \<open>ip_sessions\<close> agrees with the store. The store is a
  dictionary; no list of the index holds an identifier twice; an identifier listed for an
  IP address is in the store, with that address; and every session of the store that is
  not in a terminal status is listed for its address.
\<close>

definition tracking_ok :: "session_manager \<Rightarrow> bool" where
  "tracking_ok m \<longleftrightarrow>
     distinct (map fst (sessions m))
     \<and> (\<forall>ip. distinct (tracked m ip))
     \<and> (\<forall>ip sid. sid \<in> set (tracked m ip) \<longrightarrow>
           (\<exists>s. map_of (sessions m) sid = Some s \<and> ip_address s = ip))
     \<and> (\<forall>sid s. map_of (sessions m) sid = Some s
                  \<and> status s \<notin> set [''completed'', ''error'']
           \<longrightarrow> sid \<in> set (tracked m (ip_address s)))"

text \<open>
  The identifiers that the index \<open>ip_sessions\<close> lists for an address and whose session
  is in the store and not in a terminal status: what \<open>_get_active_sessions_for_ip\<close>
  returns, and what \<open>create_session\<close> counts.
\<close>

definition listed_active :: "session_manager \<Rightarrow> string \<Rightarrow> string list" where
  "listed_active m ip = filter (is_active m) (tracked m ip)"

text \<open>
  A manager with the default cap of 3 and retention of one hour, after three calls of
  \<open>create_session\<close> from one address.
\<close>

definition three_sessions :: session_manager where
  "three_sessions =
     fst (create_session
       (fst (create_session
         (fst (create_session (new_session_manager 3 1) ''10.0.0.1'' ''session_a'' 1))
         ''10.0.0.1'' ''session_b'' 2))
       ''10.0.0.1'' ''session_c'' 3)"

text \<open>
  A manager with cap 3 on which, for one address, two sessions were created, the first
  was set to \<open>completed\<close>, a third was created (which drops the first from the index),
  and the first was then set back to \<open>streaming\<close>.
\<close>

definition revived_session :: session_manager where
  "revived_session =
     update_session
       (fst (create_session
         (update_session
           (fst (create_session
             (fst (create_session (new_session_manager 3 1) ''10.0.0.1'' ''session_a'' 1))
             ''10.0.0.1'' ''session_b'' 2))
           ''session_a'' [Status ''completed''])
         ''10.0.0.1'' ''session_c'' 3))
       ''session_a'' [Status ''streaming'']"

section \<open>Subscribers of a session\<close>

text \<open>\<open>self.active_connections.get(session_id, [])\<close>, as \<open>get_connection_count\<close> reads it.\<close>

definition subscribers :: "websocket_manager \<Rightarrow> string \<Rightarrow> websocket list" where
  "subscribers m sid = (case map_of (active_connections m) sid of None \<Rightarrow> [] | Some conns \<Rightarrow> conns)"

text \<open>
  A manager on which the connections 1 and 2 have registered for the session \<open>s1\<close>, and
  an environment in which \<open>send_json\<close> of connection 1 raises.
\<close>

definition first_fails :: "websocket \<Rightarrow> bool" where
  "first_fails ws = (ws = 1)"

definition two_subscribers :: websocket_manager where
  "two_subscribers =
     fst (connect (fst (connect \<lparr> active_connections = [] \<rparr> first_fails ''t0'' ''s1'' 1))
            first_fails ''t1'' ''s1'' 2)"

section \<open>The fields of a message\<close>

text \<open>The keys of the envelope the specification describes, and an environment without failures.\<close>

definition envelope_keys :: "string list" where
  "envelope_keys = [''event_type'', ''session_id'', ''data'', ''timestamp'']"

definition never_fails :: "websocket \<Rightarrow> bool" where
  "never_fails ws = False"

section \<open>Node identifiers\<close>

lemma str_nat_nonempty: "str_nat n \<noteq> []"
  by (subst str_nat.simps) simp

lemma digit_inj:
  assumes "a < 10" and "b < 10" and "''0123456789'' ! a = ''0123456789'' ! b"
  shows "a = b"
proof -
  have "distinct ''0123456789''" and "length ''0123456789'' = 10" by simp_all
  with assms show ?thesis by (metis nth_eq_iff_index_eq)
qed

lemma str_nat_inj: "str_nat m = str_nat n \<Longrightarrow> m = n"
proof (induction m arbitrary: n rule: str_nat.induct)
  case (1 m)
  show ?case
  proof (cases "m < 10")
    case True
    then have sm: "str_nat m = [''0123456789'' ! m]" by (subst str_nat.simps) simp
    show ?thesis
    proof (cases "n < 10")
      case True
      then have "str_nat n = [''0123456789'' ! n]" by (subst str_nat.simps) simp
      with sm "1.prems" have "''0123456789'' ! m = ''0123456789'' ! n" by simp
      with \<open>m < 10\<close> True show ?thesis by (rule digit_inj)
    next
      case False
      then have "str_nat n = str_nat (n div 10) @ [''0123456789'' ! (n mod 10)]"
        by (subst str_nat.simps) simp
      with sm "1.prems" have "str_nat (n div 10) = []" by simp
      then show ?thesis by (simp add: str_nat_nonempty)
    qed
  next
    case False
    then have sm: "str_nat m = str_nat (m div 10) @ [''0123456789'' ! (m mod 10)]"
      by (subst str_nat.simps) simp
    show ?thesis
    proof (cases "n < 10")
      case True
      then have "str_nat n = [''0123456789'' ! n]" by (subst str_nat.simps) simp
      with sm "1.prems" have "str_nat (m div 10) = []" by simp
      then show ?thesis by (simp add: str_nat_nonempty)
    next
      case nf: False
      then have sn: "str_nat n = str_nat (n div 10) @ [''0123456789'' ! (n mod 10)]"
        by (subst str_nat.simps) simp
      from sm sn "1.prems" have e1: "str_nat (m div 10) = str_nat (n div 10)"
        and e2: "''0123456789'' ! (m mod 10) = ''0123456789'' ! (n mod 10)" by simp_all
      from "1.IH" [OF False e1] have d: "m div 10 = n div 10" .
      have "m mod 10 = n mod 10" by (rule digit_inj [OF _ _ e2]) simp_all
      with d show ?thesis by (metis div_mult_mod_eq)
    qed
  qed
qed

lemma format_node_id_inj: "format_node_id sid m = format_node_id sid n \<longleftrightarrow> m = n"
  by (auto simp: format_node_id_def dest: str_nat_inj)

section \<open>Building a node\<close>

lemma py_strip_Nil: "py_strip [] = []"
  by (simp add: py_strip_def)

lemma create_node_long:
  assumes "10 \<le> length (py_strip seg)"
  shows "\<exists>p' n. create_node_from_segment p seg = (p', Some n)
           \<and> content n = py_strip seg
           \<and> node_id n = format_node_id (parser_session_id p) (node_counter p + 1)
           \<and> node_counter p' = node_counter p + 1
           \<and> parser_session_id p' = parser_session_id p
           \<and> accumulated_text p' = accumulated_text p"
proof -
  from assms have "seg \<noteq> []" by (auto simp: py_strip_Nil)
  with assms show ?thesis
    by (simp add: create_node_from_segment_def generate_node_id_def generate_position_def
        Let_def split_def)
qed

section \<open>Finalizing twice\<close>

text \<open>
  Claim C10. \<open>finalize\<close> does not clear the accumulation buffer. When the accumulated
  text has a trimmed length of at least 10 characters, two calls of \<open>finalize\<close> in a row
  each yield exactly one node; the buffer is the same after the first call; the two nodes
  have the same content, the trimmed buffer; and their identifiers are built from the
  counter values \<open>c + 1\<close> and \<open>c + 2\<close>, where \<open>c\<close> is the counter before the first
  call, so they are distinct and their counters increase strictly.
\<close>

theorem finalize_twice:
  assumes "10 \<le> length (py_strip (accumulated_text p))"
  shows "\<exists>p1 n1 p2 n2.
           finalize p = (p1, [n1]) \<and> finalize p1 = (p2, [n2])
         \<and> accumulated_text p1 = accumulated_text p
         \<and> content n1 = py_strip (accumulated_text p)
         \<and> content n2 = content n1
         \<and> node_id n1 = format_node_id (parser_session_id p) (node_counter p + 1)
         \<and> node_id n2 = format_node_id (parser_session_id p) (node_counter p + 2)
         \<and> node_id n1 \<noteq> node_id n2"
proof -
  from assms have ne: "py_strip (accumulated_text p) \<noteq> []" by auto
  from create_node_long [OF assms, of p] obtain p1 n1 where
    c1: "create_node_from_segment p (accumulated_text p) = (p1, Some n1)"
    and k1: "content n1 = py_strip (accumulated_text p)"
    and i1: "node_id n1 = format_node_id (parser_session_id p) (node_counter p + 1)"
    and q1: "node_counter p1 = node_counter p + 1" "parser_session_id p1 = parser_session_id p"
      "accumulated_text p1 = accumulated_text p"
    by blast
  from assms q1 have a1: "10 \<le> length (py_strip (accumulated_text p1))" by simp
  from create_node_long [OF a1, of p1] obtain p2 n2 where
    c2: "create_node_from_segment p1 (accumulated_text p1) = (p2, Some n2)"
    and k2: "content n2 = py_strip (accumulated_text p1)"
    and i2: "node_id n2 = format_node_id (parser_session_id p1) (node_counter p1 + 1)"
    by blast
  have f1: "finalize p = (p1, [n1])" using ne c1 by (simp add: finalize_def)
  have f2: "finalize p1 = (p2, [n2])" using ne c2 q1 by (simp add: finalize_def)
  have "node_id n1 \<noteq> node_id n2" using i1 i2 q1 by (simp add: format_node_id_inj)
  with f1 f2 k1 k2 i1 i2 q1 show ?thesis by simp
qed

theorem finalize_twice_witness:
  "10 \<le> length (py_strip (accumulated_text
            ((new_parser ''s'')\<lparr>accumulated_text := ''  solve it now ''\<rparr>)))
   \<and> (\<exists>p1 n1 p2 n2.
          finalize ((new_parser ''s'')\<lparr>accumulated_text := ''  solve it now ''\<rparr>) = (p1, [n1])
        \<and> finalize p1 = (p2, [n2])
        \<and> content n1 = ''solve it now'' \<and> content n2 = ''solve it now''
        \<and> node_id n1 = ''s_node_1'' \<and> node_id n2 = ''s_node_2'')"
proof -
  let ?p = "(new_parser ''s'')\<lparr>accumulated_text := ''  solve it now ''\<rparr>"
  have s: "py_strip (accumulated_text ?p) = ''solve it now''"
    by (simp add: py_strip_def is_space_def code_def)
  have h: "10 \<le> length (py_strip (accumulated_text ?p))"
    unfolding s by simp
  have i: "format_node_id (parser_session_id ?p) (node_counter ?p + 1) = ''s_node_1''"
    "format_node_id (parser_session_id ?p) (node_counter ?p + 2) = ''s_node_2''"
    by (simp_all add: format_node_id_def new_parser_def str_nat.simps)
  from finalize_twice [OF h] h show ?thesis
    unfolding s i by metis
qed

section \<open>Classification\<close>

lemma max_by_score_five:
  fixes f :: "thought_type \<Rightarrow> nat"
  assumes "m = max_by_score (IMPLEMENTATION, f IMPLEMENTATION)
             [(VERIFICATION, f VERIFICATION), (DECISION, f DECISION),
              (ALTERNATIVE, f ALTERNATIVE), (ANALYSIS, f ANALYSIS)]"
  shows "snd m = f (fst m)"
    and "f ty \<le> snd m"
    and "f ty = snd m \<Longrightarrow> priority (fst m) \<le> priority ty"
proof -
  show "snd m = f (fst m)"
    unfolding assms by simp
  show "f ty \<le> snd m"
    unfolding assms by (cases ty) simp_all
  show "f ty = snd m \<Longrightarrow> priority (fst m) \<le> priority ty"
    unfolding assms by (cases ty) (simp_all add: priority_def split: if_splits)
qed

lemma classify_max:
  "classify_thought_type text =
    (let m = max_by_score (IMPLEMENTATION, type_score IMPLEMENTATION text)
         [(VERIFICATION, type_score VERIFICATION text), (DECISION, type_score DECISION text),
          (ALTERNATIVE, type_score ALTERNATIVE text), (ANALYSIS, type_score ANALYSIS text)]
     in if 0 < snd m then fst m else ANALYSIS)"
  by (simp add: classify_thought_type_def scores_def type_score_def Let_def)

text \<open>
  Claim C6, as stated, fails: the code does not count occurrences. On the text below the
  keyword \<open>test\<close> occurs three times, yet the verification score of the code is 1, since a
  keyword that occurs counts once however often it occurs. With two implementation
  keywords present the code answers \<open>implementation\<close>, where scoring by occurrences
  answers \<open>verification\<close>.
\<close>

theorem classify_counts_each_keyword_once:
  "type_score VERIFICATION ''Test test TEST code def'' = 1
   \<and> occurrence_score (type_keywords VERIFICATION) (py_lower ''Test test TEST code def'') = 3
   \<and> type_score IMPLEMENTATION ''Test test TEST code def'' = 2
   \<and> classify_thought_type ''Test test TEST code def'' = IMPLEMENTATION
   \<and> classify_by_occurrences ''Test test TEST code def'' = VERIFICATION"
  by code_simp

text \<open>
  Claim C6, amended. The score of a type is the number of its keywords that occur in the
  lowercased segment as substrings, each keyword counted once. The type returned has the
  highest score; when some score is positive, no type with the same score stands before
  it in the order implementation, verification, decision, alternative, analysis; and when
  every score is zero the result is \<open>analysis\<close>.
\<close>

theorem classify_highest_keyword_count:
  "(\<forall>ty. type_score ty text \<le> type_score (classify_thought_type text) text)
   \<and> ((\<exists>ty. 0 < type_score ty text) \<longrightarrow>
        (\<forall>ty. type_score ty text = type_score (classify_thought_type text) text
              \<longrightarrow> priority (classify_thought_type text) \<le> priority ty))
   \<and> ((\<forall>ty. type_score ty text = 0) \<longrightarrow> classify_thought_type text = ANALYSIS)"
proof -
  define f where "f ty = type_score ty text" for ty
  define m where "m = max_by_score (IMPLEMENTATION, f IMPLEMENTATION)
             [(VERIFICATION, f VERIFICATION), (DECISION, f DECISION),
              (ALTERNATIVE, f ALTERNATIVE), (ANALYSIS, f ANALYSIS)]"
  note five = max_by_score_five [OF m_def]
  have r: "classify_thought_type text = (if 0 < snd m then fst m else ANALYSIS)"
    unfolding classify_max m_def f_def by (simp add: Let_def)
  have a: "f ty \<le> f (classify_thought_type text)" for ty
  proof (cases "0 < snd m")
    case True
    with r five(1) five(2) [of ty] show ?thesis by simp
  next
    case False
    with five(2) [of ty] have "f ty = 0" by simp
    then show ?thesis by simp
  qed
  have b: "priority (classify_thought_type text) \<le> priority ty"
    if "0 < f ty'" and "f ty = f (classify_thought_type text)" for ty ty'
  proof -
    from that(1) five(2) [of ty'] have pos: "0 < snd m" by simp
    with r have "classify_thought_type text = fst m" by simp
    with that(2) five(1) five(3) [of ty] show ?thesis by simp
  qed
  have c: "classify_thought_type text = ANALYSIS" if "\<forall>ty. f ty = 0"
  proof -
    from that five(1) have "snd m = 0" by simp
    with r show ?thesis by simp
  qed
  from a b c show ?thesis unfolding f_def by blast
qed

theorem classify_highest_keyword_count_witness:
  "0 < type_score VERIFICATION ''Check the code''
   \<and> type_score VERIFICATION ''Check the code'' = type_score IMPLEMENTATION ''Check the code''
   \<and> classify_thought_type ''Check the code'' = IMPLEMENTATION
   \<and> type_score ANALYSIS ''Check the code''
        \<le> type_score (classify_thought_type ''Check the code'') ''Check the code''
   \<and> priority (classify_thought_type ''Check the code'') \<le> priority VERIFICATION"
proof -
  have v: "type_score VERIFICATION ''Check the code'' = 1"
    and i: "type_score IMPLEMENTATION ''Check the code'' = 1"
    and c: "classify_thought_type ''Check the code'' = IMPLEMENTATION"
    by code_simp+
  from classify_highest_keyword_count [of "''Check the code''"] v i c show ?thesis
    by (metis less_numeral_extra(1))
qed

section \<open>Keywords and confidence\<close>

lemma findall_words_tokens:
  "w \<in> set (findall_words prev s) \<Longrightarrow> 3 \<le> length w \<and> (\<forall>c \<in> set w. is_lower c)"
proof (induction prev s rule: findall_words.induct)
  case (1 prev)
  then show ?case by (simp add: findall_words.simps)
next
  case (2 prev c cs)
  let ?run = "takeWhile is_lower (c # cs)"
  let ?rest = "dropWhile is_lower (c # cs)"
  let ?cond = "word_boundary prev (Some c) \<and> 3 \<le> length ?run
                 \<and> word_boundary (Some (last ?run)) (first_char ?rest)"
  show ?case
  proof (cases ?cond)
    case True
    have "findall_words prev (c # cs) = ?run # findall_words (Some (last ?run)) ?rest"
      by (subst findall_words.simps, rule if_P, rule True)
    with "2.prems" have "w = ?run \<or> w \<in> set (findall_words (Some (last ?run)) ?rest)"
      by (simp del: takeWhile.simps dropWhile.simps)
    then show ?thesis
    proof
      assume w: "w = ?run"
      have "\<forall>d \<in> set ?run. is_lower d" by (blast dest: set_takeWhileD)
      with True w show ?thesis by blast
    next
      assume "w \<in> set (findall_words (Some (last ?run)) ?rest)"
      with "2.IH"(1) [OF True] show ?thesis .
    qed
  next
    case False
    have "findall_words prev (c # cs) = findall_words (Some c) cs"
      by (subst findall_words.simps, rule if_not_P, rule False)
    with "2.prems" "2.IH"(2) [OF False] show ?thesis by simp
  qed
qed

lemma counter_add_distinct:
  "distinct (map fst al) \<Longrightarrow> distinct (map fst (counter_add w al))"
  by (simp add: counter_add_def distinct_update)

lemma counter_add_keys: "fst ` set (counter_add w al) = insert w (fst ` set al)"
  by (simp add: counter_add_def dom_update)

lemma counter_add_lookup:
  "map_of (counter_add w al) v =
     (if v = w then Some (case map_of al w of None \<Rightarrow> 1 | Some n \<Rightarrow> n + 1) else map_of al v)"
  by (simp add: counter_add_def update_conv')

lemma fold_counter_add_distinct:
  "distinct (map fst al) \<Longrightarrow> distinct (map fst (fold counter_add ws al))"
  by (induction ws arbitrary: al) (simp_all add: counter_add_distinct)

lemma fold_counter_add_keys:
  "fst ` set (fold counter_add ws al) = set ws \<union> fst ` set al"
  by (induction ws arbitrary: al) (auto simp: counter_add_keys)

lemma fold_counter_add_lookup:
  "map_of (fold counter_add ws al) v =
     (if count_list ws v = 0 then map_of al v
      else Some (count_list ws v + (case map_of al v of None \<Rightarrow> 0 | Some n \<Rightarrow> n)))"
proof (induction ws arbitrary: al)
  case Nil
  then show ?case by simp
next
  case (Cons w ws)
  show ?case
    by (simp add: Cons.IH counter_add_lookup split: option.splits)
qed

lemma counter_distinct: "distinct (map fst (counter ws))"
  by (simp add: counter_def fold_counter_add_distinct)

lemma counter_keys: "fst ` set (counter ws) = set ws"
  by (simp add: counter_def fold_counter_add_keys)

lemma counter_counts: "(w, c) \<in> set (counter ws) \<Longrightarrow> c = count_list ws w"
proof -
  assume "(w, c) \<in> set (counter ws)"
  with counter_distinct have "map_of (counter ws) w = Some c" by simp
  then show ?thesis
    by (simp add: counter_def fold_counter_add_lookup split: if_splits)
qed

lemma most_common_subset: "set (most_common al n) \<subseteq> set al"
  by (auto simp: most_common_def dest: in_set_takeD)

lemma most_common_distinct:
  assumes "distinct (map fst al)"
  shows "distinct (map fst (most_common al n))"
proof -
  from assms have "distinct al" and "inj_on fst (set al)"
    by (simp_all add: distinct_map)
  then have "distinct (map fst (sort_key (\<lambda>item. - int (snd item)) al))"
    by (simp add: distinct_map)
  then show ?thesis
    by (simp add: most_common_def take_map [symmetric] del: take_map)
qed

lemma most_common_sorted: "sorted_wrt (\<lambda>a b. snd b \<le> snd a) (most_common al n)"
proof -
  let ?f = "\<lambda>item :: string \<times> nat. - int (snd item)"
  have "sorted (map ?f (sort_key ?f al))" by (rule sorted_sort_key)
  then have "sorted_wrt (\<lambda>a b. ?f a \<le> ?f b) (sort_key ?f al)"
    by (simp add: sorted_map)
  then have "sorted_wrt (\<lambda>a b. snd b \<le> snd a) (sort_key ?f al)"
    by (rule sorted_wrt_mono_rel [rotated]) simp
  then show ?thesis
    unfolding most_common_def by (rule sorted_wrt_take)
qed

lemma extract_keywords_length: "length (extract_keywords text n) \<le> n"
  by (simp add: extract_keywords_def most_common_def)

lemma extract_keywords_distinct: "distinct (extract_keywords text n)"
  unfolding extract_keywords_def by (rule most_common_distinct) (rule counter_distinct)

lemma extract_keywords_filtered: "set (extract_keywords text n) \<subseteq> set (filtered_words text)"
proof -
  have "set (extract_keywords text n) \<subseteq> fst ` set (counter (filtered_words text))"
    unfolding extract_keywords_def using most_common_subset by fastforce
  then show ?thesis by (simp add: counter_keys)
qed

lemma extract_keywords_tokens:
  assumes "w \<in> set (extract_keywords text n)"
  shows "3 \<le> length w \<and> (\<forall>c \<in> set w. is_lower c) \<and> w \<notin> set stop_words"
proof -
  from assms extract_keywords_filtered have "w \<in> set (filtered_words text)" by blast
  then have "w \<in> set (findall_words None (py_lower text))" and "w \<notin> set stop_words"
    by (simp_all add: filtered_words_def)
  with findall_words_tokens show ?thesis by blast
qed

lemma extract_keywords_ranked:
  "sorted_wrt (\<lambda>a b. word_frequency text b \<le> word_frequency text a) (extract_keywords text n)"
proof -
  let ?mc = "most_common (counter (filtered_words text)) n"
  have s: "sorted_wrt (\<lambda>a b. snd b \<le> snd a) ?mc" by (rule most_common_sorted)
  have c: "snd item = word_frequency text (fst item)" if "item \<in> set ?mc" for item
  proof -
    from that most_common_subset have "(fst item, snd item) \<in> set (counter (filtered_words text))"
      by fastforce
    then show ?thesis unfolding word_frequency_def by (rule counter_counts)
  qed
  have "sorted_wrt (\<lambda>a b. word_frequency text (fst b) \<le> word_frequency text (fst a)) ?mc"
    using s by (rule sorted_wrt_mono_rel [rotated]) (simp add: c)
  then show ?thesis
    by (simp add: extract_keywords_def sorted_wrt_map)
qed

lemma calculate_confidence_range:
  "0 \<le> calculate_confidence text \<and> calculate_confidence text \<le> 1"
  by (simp add: calculate_confidence_def Let_def)

lemma create_node_fields:
  assumes "create_node_from_segment p seg = (p', Some n)"
  shows "confidence n = calculate_confidence seg"
    and "node_keywords n = extract_keywords seg 5"
    and "node_type n = classify_thought_type seg"
    and "content n = py_strip seg"
  using assms
  by (auto simp: create_node_from_segment_def Let_def split_def split: if_splits)

lemma create_nodes_built:
  "n \<in> set (snd (create_nodes p segs)) \<Longrightarrow>
     \<exists>q seg q'. create_node_from_segment q seg = (q', Some n)"
proof (induction segs arbitrary: p)
  case Nil
  then show ?case by simp
next
  case (Cons seg segs)
  obtain p' r where c: "create_node_from_segment p seg = (p', r)" by (cases "create_node_from_segment p seg")
  show ?case
  proof (cases r)
    case None
    with c Cons show ?thesis by simp
  next
    case (Some nd)
    obtain p'' ns where cs: "create_nodes p' segs = (p'', ns)" by (cases "create_nodes p' segs")
    with c Some Cons.prems have "n = nd \<or> n \<in> set (snd (create_nodes p' segs))" by auto
    then show ?thesis
    proof
      assume "n = nd"
      with c Some show ?thesis by blast
    next
      assume "n \<in> set (snd (create_nodes p' segs))"
      then show ?thesis by (rule Cons.IH)
    qed
  qed
qed

lemma parse_incremental_built:
  "n \<in> set (snd (parse_incremental p chunk)) \<Longrightarrow>
     \<exists>q seg q'. create_node_from_segment q seg = (q', Some n)"
  by (auto simp: parse_incremental_def Let_def split: if_splits dest: create_nodes_built)

lemma finalize_built:
  "n \<in> set (snd (finalize p)) \<Longrightarrow>
     \<exists>q seg q'. create_node_from_segment q seg = (q', Some n)"
  by (auto simp: finalize_def split: if_splits prod.splits option.splits)

lemma feed_built:
  "n \<in> set (snd (feed p chunks)) \<Longrightarrow>
     \<exists>q seg q'. create_node_from_segment q seg = (q', Some n)"
proof (induction chunks arbitrary: p)
  case Nil
  then show ?case by simp
next
  case (Cons chunk chunks)
  obtain p' ns where a: "parse_incremental p chunk = (p', ns)" by (cases "parse_incremental p chunk")
  obtain p'' ns' where b: "feed p' chunks = (p'', ns')" by (cases "feed p' chunks")
  from Cons.prems a b have "n \<in> set (snd (parse_incremental p chunk)) \<or> n \<in> set (snd (feed p' chunks))"
    by auto
  then show ?case using parse_incremental_built Cons.IH by blast
qed

lemma feed_and_finalize_built:
  "n \<in> set (snd (feed_and_finalize p chunks)) \<Longrightarrow>
     \<exists>q seg q'. create_node_from_segment q seg = (q', Some n)"
proof -
  assume n: "n \<in> set (snd (feed_and_finalize p chunks))"
  obtain p' ns where a: "feed p chunks = (p', ns)" by (cases "feed p chunks")
  obtain p'' ns' where b: "finalize p' = (p'', ns')" by (cases "finalize p'")
  from n a b have "n \<in> set (snd (feed p chunks)) \<or> n \<in> set (snd (finalize p'))"
    by (auto simp: feed_and_finalize_def)
  then show ?thesis using feed_built finalize_built by blast
qed

text \<open>
  Claim C7. For every text, \<open>calculate_confidence\<close> lies in \<open>[0, 1]\<close>, and
  \<open>extract_keywords\<close> (with its default of 5) returns at most 5 keywords, without
  duplicates, each a run of at least 3 lowercase letters found in the lowercased text that
  is not a stop word, in the order of descending frequency. Hence every node that a parser
  yields, whatever its state and the chunks fed before finalizing, has a confidence in
  \<open>[0, 1]\<close> and at most 5 keywords, all distinct.
\<close>

theorem confidence_and_keywords_bounded:
  "0 \<le> calculate_confidence text \<and> calculate_confidence text \<le> 1
   \<and> length (extract_keywords text 5) \<le> 5
   \<and> distinct (extract_keywords text 5)
   \<and> (\<forall>w \<in> set (extract_keywords text 5).
         3 \<le> length w \<and> (\<forall>c \<in> set w. is_lower c) \<and> w \<notin> set stop_words
         \<and> w \<in> set (findall_words None (py_lower text)))
   \<and> sorted_wrt (\<lambda>a b. word_frequency text b \<le> word_frequency text a) (extract_keywords text 5)
   \<and> (\<forall>n \<in> set (snd (feed_and_finalize p chunks)).
         0 \<le> confidence n \<and> confidence n \<le> 1
         \<and> length (node_keywords n) \<le> 5 \<and> distinct (node_keywords n))"
proof -
  have t: "\<forall>w \<in> set (extract_keywords text 5).
         3 \<le> length w \<and> (\<forall>c \<in> set w. is_lower c) \<and> w \<notin> set stop_words
         \<and> w \<in> set (findall_words None (py_lower text))"
  proof
    fix w assume w: "w \<in> set (extract_keywords text 5)"
    with extract_keywords_filtered have "w \<in> set (filtered_words text)" by blast
    then have "w \<in> set (findall_words None (py_lower text))" by (simp add: filtered_words_def)
    with extract_keywords_tokens [OF w] show "3 \<le> length w \<and> (\<forall>c \<in> set w. is_lower c)
      \<and> w \<notin> set stop_words \<and> w \<in> set (findall_words None (py_lower text))" by simp
  qed
  have n: "\<forall>n \<in> set (snd (feed_and_finalize p chunks)).
         0 \<le> confidence n \<and> confidence n \<le> 1
         \<and> length (node_keywords n) \<le> 5 \<and> distinct (node_keywords n)"
  proof
    fix n assume "n \<in> set (snd (feed_and_finalize p chunks))"
    then obtain q seg q' where "create_node_from_segment q seg = (q', Some n)"
      using feed_and_finalize_built by blast
    then have "confidence n = calculate_confidence seg" "node_keywords n = extract_keywords seg 5"
      by (rule create_node_fields)+
    then show "0 \<le> confidence n \<and> confidence n \<le> 1
         \<and> length (node_keywords n) \<le> 5 \<and> distinct (node_keywords n)"
      by (simp add: calculate_confidence_range extract_keywords_length extract_keywords_distinct)
  qed
  from calculate_confidence_range extract_keywords_length extract_keywords_distinct
    extract_keywords_ranked t n
  show ?thesis by blast
qed

theorem confidence_and_keywords_bounded_witness:
  "extract_keywords ''Key, cache key'' 5 = [''key'', ''cache'']
   \<and> ''cache'' \<in> set (findall_words None (py_lower ''Key, cache key''))
   \<and> 0 \<le> calculate_confidence ''Key, cache key''
   \<and> calculate_confidence ''Key, cache key'' \<le> 1
   \<and> word_frequency ''Key, cache key'' ''cache'' \<le> word_frequency ''Key, cache key'' ''key''
   \<and> (\<exists>n. snd (feed_and_finalize ((new_parser ''s'')\<lparr>accumulated_text := ''Key, cache key''\<rparr>) [])
              = [n]
          \<and> 0 \<le> confidence n \<and> confidence n \<le> 1
          \<and> length (node_keywords n) \<le> 5 \<and> distinct (node_keywords n))"
proof -
  let ?p = "(new_parser ''s'')\<lparr>accumulated_text := ''Key, cache key''\<rparr>"
  have k: "extract_keywords ''Key, cache key'' 5 = [''key'', ''cache'']"
    by code_simp
  have s: "py_strip (accumulated_text ?p) = ''Key, cache key''"
    by (simp add: py_strip_def is_space_def code_def)
  then have "10 \<le> length (py_strip (accumulated_text ?p))" by simp
  from create_node_long [OF this, of ?p] obtain p' n where
    "create_node_from_segment ?p (accumulated_text ?p) = (p', Some n)" by blast
  with s have f: "snd (feed_and_finalize ?p []) = [n]"
    by (simp add: feed_and_finalize_def finalize_def)
  from confidence_and_keywords_bounded [of "''Key, cache key''" ?p "[]"] show ?thesis
    unfolding k f by simp
qed

section \<open>What a parser emits\<close>

lemma create_node_short:
  "\<not> 10 \<le> length (py_strip seg) \<Longrightarrow> create_node_from_segment p seg = (p, None)"
  by (simp add: create_node_from_segment_def)

lemma create_node_content:
  assumes "create_node_from_segment p seg = (p', r)"
  shows "accumulated_text p' = accumulated_text p"
    and "map content (case r of None \<Rightarrow> [] | Some n \<Rightarrow> [n])
           = (if 10 \<le> length (py_strip seg) then [py_strip seg] else [])"
proof -
  show "accumulated_text p' = accumulated_text p"
  proof (cases "10 \<le> length (py_strip seg)")
    case True
    from create_node_long [OF True, of p] assms show ?thesis by auto
  next
    case False
    with assms show ?thesis by (simp add: create_node_short)
  qed
  show "map content (case r of None \<Rightarrow> [] | Some n \<Rightarrow> [n])
           = (if 10 \<le> length (py_strip seg) then [py_strip seg] else [])"
  proof (cases "10 \<le> length (py_strip seg)")
    case True
    from create_node_long [OF True, of p] assms True show ?thesis by auto
  next
    case False
    with assms show ?thesis by (simp add: create_node_short)
  qed
qed

lemma create_nodes_contents:
  "create_nodes p segs = (p', ns) \<Longrightarrow>
     accumulated_text p' = accumulated_text p
     \<and> map content ns = map py_strip (filter (\<lambda>s. 10 \<le> length (py_strip s)) segs)"
proof (induction segs arbitrary: p p' ns)
  case Nil
  then show ?case by simp
next
  case (Cons seg segs)
  obtain p1 r where c: "create_node_from_segment p seg = (p1, r)"
    by (cases "create_node_from_segment p seg")
  obtain p2 ms where cs: "create_nodes p1 segs = (p2, ms)" by (cases "create_nodes p1 segs")
  let ?one = "case r of None \<Rightarrow> [] | Some n \<Rightarrow> [n]"
  from Cons.prems c cs have e: "p' = p2" "ns = ?one @ ms" by (auto split: option.splits)
  from create_node_content [OF c] Cons.IH [OF cs] e show ?case by simp
qed

lemma parse_incremental_emits:
  assumes "parse_incremental p chunk = (p', ns)"
    and "1 < length (split_into_segments (accumulated_text p @ chunk) 20)"
  shows "accumulated_text p' = last (split_into_segments (accumulated_text p @ chunk) 20)"
    and "map content ns = map py_strip (filter (\<lambda>s. 10 \<le> length (py_strip s))
           (butlast (split_into_segments (accumulated_text p @ chunk) 20)))"
proof -
  let ?segs = "split_into_segments (accumulated_text p @ chunk) 20"
  let ?p2 = "p\<lparr>accumulated_text := last ?segs\<rparr>"
  from assms have "create_nodes ?p2 (butlast ?segs) = (p', ns)"
    by (simp add: parse_incremental_def Let_def)
  from create_nodes_contents [OF this]
  show "accumulated_text p' = last ?segs"
    and "map content ns = map py_strip (filter (\<lambda>s. 10 \<le> length (py_strip s)) (butlast ?segs))"
    by simp_all
qed

lemma parse_incremental_waits:
  assumes "\<not> 1 < length (split_into_segments (accumulated_text p @ chunk) 20)"
  shows "parse_incremental p chunk = (p\<lparr>accumulated_text := accumulated_text p @ chunk\<rparr>, [])"
  using assms by (simp add: parse_incremental_def Let_def)

lemma finalize_contents:
  assumes "finalize p = (p', ns)"
  shows "map content ns = (if 10 \<le> length (py_strip (accumulated_text p))
                           then [py_strip (accumulated_text p)] else [])"
proof (cases "py_strip (accumulated_text p) \<noteq> []")
  case True
  obtain p1 r where c: "create_node_from_segment p (accumulated_text p) = (p1, r)"
    by (cases "create_node_from_segment p (accumulated_text p)")
  with True assms have "ns = (case r of None \<Rightarrow> [] | Some n \<Rightarrow> [n])"
    by (auto simp: finalize_def split: option.splits)
  with create_node_content(2) [OF c] show ?thesis by simp
next
  case False
  with assms show ?thesis by (simp add: finalize_def)
qed

section \<open>Dependencies\<close>

lemma fold_add_shared_subset:
  "set (fold (add_shared node) rs deps) \<subseteq> set deps \<union> node_id ` set rs"
proof (induction rs arbitrary: deps)
  case Nil
  then show ?case by simp
next
  case (Cons r rs)
  have "set (add_shared node r deps) \<subseteq> set deps \<union> {node_id r}"
    by (auto simp: add_shared_def)
  with Cons [of "add_shared node r deps"] show ?case by auto
qed

lemma detect_dependencies_subset:
  "set (detect_dependencies p node) \<subseteq> node_id ` set (recent_nodes p)"
proof -
  define deps0 where "deps0 =
    (if referential_cue (detect_linguistic_cues (content node)) \<and> recent_nodes p \<noteq> []
     then [node_id (last (recent_nodes p))] else [])"
  define deps1 where "deps1 = fold (add_shared node) (last3 (recent_nodes p)) deps0"
  have l: "recent_nodes p \<noteq> [] \<Longrightarrow> node_id (last (recent_nodes p)) \<in> node_id ` set (recent_nodes p)"
    by simp
  have a: "set deps0 \<subseteq> node_id ` set (recent_nodes p)"
  proof (cases "referential_cue (detect_linguistic_cues (content node)) \<and> recent_nodes p \<noteq> []")
    case True
    then have "deps0 = [node_id (last (recent_nodes p))]" unfolding deps0_def by (rule if_P)
    with True l show ?thesis by simp
  next
    case False
    then have "deps0 = []" unfolding deps0_def by (rule if_not_P)
    then show ?thesis by simp
  qed
  have "set (last3 (recent_nodes p)) \<subseteq> set (recent_nodes p)"
    unfolding last3_def by (rule set_drop_subset)
  then have i: "node_id ` set (last3 (recent_nodes p)) \<subseteq> node_id ` set (recent_nodes p)"
    by (rule image_mono)
  have "set deps1 \<subseteq> set deps0 \<union> node_id ` set (last3 (recent_nodes p))"
    unfolding deps1_def by (rule fold_add_shared_subset)
  also from a i have "\<dots> \<subseteq> node_id ` set (recent_nodes p)" by (rule Un_least)
  finally have b: "set deps1 \<subseteq> node_id ` set (recent_nodes p)" .
  have d: "detect_dependencies p node =
             (if deps1 = [] \<and> recent_nodes p \<noteq> []
              then deps1 @ [node_id (last (recent_nodes p))] else deps1)"
    unfolding detect_dependencies_def Let_def deps1_def deps0_def ..
  show ?thesis
  proof (cases "deps1 = [] \<and> recent_nodes p \<noteq> []")
    case True
    with d have "detect_dependencies p node = deps1 @ [node_id (last (recent_nodes p))]"
      by simp
    with True l show ?thesis by simp
  next
    case False
    with d have "detect_dependencies p node = deps1" by auto
    with b show ?thesis by simp
  qed
qed

lemma detect_dependencies_nonempty:
  "recent_nodes p \<noteq> [] \<Longrightarrow> detect_dependencies p node \<noteq> []"
  by (simp add: detect_dependencies_def Let_def)

lemma create_node_window:
  assumes "10 \<le> length (py_strip seg)"
  shows "\<exists>p' n. create_node_from_segment p seg = (p', Some n)
           \<and> node_id n = format_node_id (parser_session_id p) (node_counter p + 1)
           \<and> node_counter p' = node_counter p + 1
           \<and> parser_session_id p' = parser_session_id p
           \<and> set (dependencies n) \<subseteq> node_id ` set (recent_nodes p)
           \<and> (recent_nodes p \<noteq> [] \<longrightarrow> dependencies n \<noteq> [])
           \<and> recent_nodes p' = (if 5 < length (recent_nodes p @ [n])
                                 then tl (recent_nodes p @ [n]) else recent_nodes p @ [n])"
proof -
  from assms have ne: "seg \<noteq> []" by (auto simp: py_strip_Nil)
  obtain p1 nid where g: "generate_node_id p = (p1, nid)" by (cases "generate_node_id p")
  obtain p2 pos where h: "generate_position p1 = (p2, pos)" by (cases "generate_position p1")
  from g have p1: "recent_nodes p1 = recent_nodes p" "node_counter p1 = node_counter p + 1"
    "parser_session_id p1 = parser_session_id p"
    and nid: "nid = format_node_id (parser_session_id p) (node_counter p + 1)"
    by (auto simp: generate_node_id_def Let_def)
  from h p1 have p2: "recent_nodes p2 = recent_nodes p" "node_counter p2 = node_counter p + 1"
    "parser_session_id p2 = parser_session_id p"
    by (auto simp: generate_position_def Let_def split: if_splits)
  define node0 where "node0 = \<lparr> node_id = nid, node_type = classify_thought_type seg,
      content = py_strip seg, confidence = calculate_confidence seg,
      node_keywords = extract_keywords seg 5, dependencies = [],
      node_position = pos, node_session_id = parser_session_id p2 \<rparr>"
  define n where "n = node0\<lparr>dependencies := detect_dependencies p2 node0\<rparr>"
  define rec where "rec = (if 5 < length (recent_nodes p2 @ [n])
                            then tl (recent_nodes p2 @ [n]) else recent_nodes p2 @ [n])"
  have c: "create_node_from_segment p seg = (p2\<lparr>recent_nodes := rec\<rparr>, Some n)"
    using assms ne g h
    by (simp add: create_node_from_segment_def Let_def node0_def n_def rec_def)
  have d: "dependencies n = detect_dependencies p2 node0" by (simp add: n_def)
  have i: "node_id n = nid" by (simp add: n_def node0_def)
  from detect_dependencies_subset [of p2 node0] p2 d
  have s: "set (dependencies n) \<subseteq> node_id ` set (recent_nodes p)" by simp
  from detect_dependencies_nonempty [of p2 node0] p2 d
  have e: "recent_nodes p \<noteq> [] \<longrightarrow> dependencies n \<noteq> []" by simp
  from c i nid p2 s e show ?thesis
    by (simp add: rec_def)
qed

lemma parser_inv_accumulated [simp]:
  "parser_inv sid (p\<lparr>accumulated_text := t\<rparr>) prev = parser_inv sid p prev"
  by (simp add: parser_inv_def)

lemma deps_ok_snoc:
  assumes "deps_ok prev"
    and "prev \<noteq> [] \<longrightarrow> dependencies n \<noteq> []"
    and "set (dependencies n) \<subseteq> node_id ` set prev"
  shows "deps_ok (prev @ [n])"
  unfolding deps_ok_def
proof (intro allI impI)
  fix k assume k: "k < length (prev @ [n])"
  show "(0 < k \<longrightarrow> dependencies ((prev @ [n]) ! k) \<noteq> [])
        \<and> (\<forall>d \<in> set (dependencies ((prev @ [n]) ! k)). \<exists>j < k. d = node_id ((prev @ [n]) ! j))"
  proof (cases "k < length prev")
    case True
    with assms(1) have a: "0 < k \<longrightarrow> dependencies (prev ! k) \<noteq> []"
      and b: "\<forall>d \<in> set (dependencies (prev ! k)). \<exists>j < k. d = node_id (prev ! j)"
      by (simp_all add: deps_ok_def)
    have "\<exists>j < k. d = node_id ((prev @ [n]) ! j)" if "d \<in> set (dependencies (prev ! k))" for d
    proof -
      from b that obtain j where "j < k" "d = node_id (prev ! j)" by blast
      with True show ?thesis by (auto simp: nth_append intro!: exI [of _ j])
    qed
    with a True show ?thesis by (simp add: nth_append)
  next
    case False
    with k have kl: "k = length prev" by simp
    have "\<exists>j < k. d = node_id ((prev @ [n]) ! j)" if "d \<in> set (dependencies n)" for d
    proof -
      from that assms(3) obtain m where "m \<in> set prev" "d = node_id m" by blast
      then obtain j where "j < length prev" "prev ! j = m" by (auto simp: in_set_conv_nth)
      with kl \<open>d = node_id m\<close> show ?thesis by (auto simp: nth_append intro!: exI [of _ j])
    qed
    with assms(2) kl show ?thesis by auto
  qed
qed

lemma create_node_inv:
  assumes "parser_inv sid p prev" and "deps_ok prev"
    and "create_node_from_segment p seg = (p', r)"
  shows "parser_inv sid p' (prev @ (case r of None \<Rightarrow> [] | Some n \<Rightarrow> [n]))
         \<and> deps_ok (prev @ (case r of None \<Rightarrow> [] | Some n \<Rightarrow> [n]))"
proof (cases "10 \<le> length (py_strip seg)")
  case False
  with assms show ?thesis by (simp add: create_node_short)
next
  case True
  from create_node_window [OF True, of p] assms(3) obtain n where
    r: "r = Some n"
    and i: "node_id n = format_node_id (parser_session_id p) (node_counter p + 1)"
    and c: "node_counter p' = node_counter p + 1"
    and s: "parser_session_id p' = parser_session_id p"
    and d: "set (dependencies n) \<subseteq> node_id ` set (recent_nodes p)"
    and e: "recent_nodes p \<noteq> [] \<longrightarrow> dependencies n \<noteq> []"
    and w: "recent_nodes p' = (if 5 < length (recent_nodes p @ [n])
                                 then tl (recent_nodes p @ [n]) else recent_nodes p @ [n])"
    by auto
  from assms(1) have inv: "parser_session_id p = sid" "node_counter p = length prev"
    "set (recent_nodes p) \<subseteq> set prev" "prev \<noteq> [] \<longrightarrow> recent_nodes p \<noteq> []"
    "\<forall>k < length prev. node_id (prev ! k) = format_node_id sid (k + 1)"
    by (simp_all add: parser_inv_def)
  have w1: "set (recent_nodes p') \<subseteq> set (prev @ [n])"
  proof -
    have "set (tl (recent_nodes p @ [n])) \<subseteq> set (recent_nodes p @ [n])"
      by (metis list.set_sel(2) subsetI tl_Nil)
    with w inv(3) show ?thesis by (auto split: if_splits)
  qed
  have w2: "recent_nodes p' \<noteq> []"
  proof (cases "5 < length (recent_nodes p @ [n])")
    case True
    have "length (tl (recent_nodes p @ [n])) = length (recent_nodes p @ [n]) - 1"
      by (simp only: length_tl)
    with True have "length (tl (recent_nodes p @ [n])) \<noteq> 0" by linarith
    then have "tl (recent_nodes p @ [n]) \<noteq> []" by (metis list.size(3))
    with w True show ?thesis by simp
  next
    case False
    with w show ?thesis by simp
  qed
  have ids: "\<forall>k < length (prev @ [n]). node_id ((prev @ [n]) ! k) = format_node_id sid (k + 1)"
    using inv(5) i inv(1) inv(2) by (auto simp: nth_append less_Suc_eq)
  have pi: "parser_inv sid p' (prev @ [n])"
    unfolding parser_inv_def using s c inv(1) inv(2) w1 w2 ids by simp
  have "deps_ok (prev @ [n])"
  proof (rule deps_ok_snoc [OF assms(2)])
    from e inv(4) show "prev \<noteq> [] \<longrightarrow> dependencies n \<noteq> []" by simp
    from d inv(3) show "set (dependencies n) \<subseteq> node_id ` set prev" by blast
  qed
  with pi r show ?thesis by simp
qed

lemma create_nodes_inv:
  "parser_inv sid p prev \<Longrightarrow> deps_ok prev \<Longrightarrow> create_nodes p segs = (p', ns) \<Longrightarrow>
     parser_inv sid p' (prev @ ns) \<and> deps_ok (prev @ ns)"
proof (induction segs arbitrary: p prev ns p')
  case Nil
  then show ?case by simp
next
  case (Cons seg segs)
  obtain p1 r where c: "create_node_from_segment p seg = (p1, r)"
    by (cases "create_node_from_segment p seg")
  obtain p2 ms where cs: "create_nodes p1 segs = (p2, ms)" by (cases "create_nodes p1 segs")
  let ?one = "case r of None \<Rightarrow> [] | Some n \<Rightarrow> [n]"
  from create_node_inv [OF Cons.prems(1) Cons.prems(2) c]
  have a: "parser_inv sid p1 (prev @ ?one)" and b: "deps_ok (prev @ ?one)" by simp_all
  from Cons.IH [OF a b cs] have "parser_inv sid p2 ((prev @ ?one) @ ms) \<and> deps_ok ((prev @ ?one) @ ms)" .
  moreover from Cons.prems(3) c cs have "p' = p2" "ns = ?one @ ms"
    by (auto split: option.splits)
  ultimately show ?case by simp
qed

lemma parse_incremental_inv:
  assumes "parser_inv sid p prev" and "deps_ok prev" and "parse_incremental p chunk = (p', ns)"
  shows "parser_inv sid p' (prev @ ns) \<and> deps_ok (prev @ ns)"
proof -
  let ?p1 = "p\<lparr>accumulated_text := accumulated_text p @ chunk\<rparr>"
  let ?segs = "split_into_segments (accumulated_text ?p1) 20"
  show ?thesis
  proof (cases "1 < length ?segs")
    case True
    with assms(3) have "create_nodes (?p1\<lparr>accumulated_text := last ?segs\<rparr>) (butlast ?segs) = (p', ns)"
      by (simp add: parse_incremental_def Let_def)
    moreover from assms(1) have "parser_inv sid (?p1\<lparr>accumulated_text := last ?segs\<rparr>) prev"
      by simp
    ultimately show ?thesis using assms(2) by (rule create_nodes_inv [rotated 2])
  next
    case False
    with assms(3) have "p' = ?p1" "ns = []" by (simp_all add: parse_incremental_def Let_def)
    with assms show ?thesis by simp
  qed
qed

lemma finalize_inv:
  assumes "parser_inv sid p prev" and "deps_ok prev" and "finalize p = (p', ns)"
  shows "parser_inv sid p' (prev @ ns) \<and> deps_ok (prev @ ns)"
proof (cases "py_strip (accumulated_text p) \<noteq> []")
  case True
  obtain p1 r where c: "create_node_from_segment p (accumulated_text p) = (p1, r)"
    by (cases "create_node_from_segment p (accumulated_text p)")
  with True assms(3) have "p' = p1" "ns = (case r of None \<Rightarrow> [] | Some n \<Rightarrow> [n])"
    by (auto simp: finalize_def split: option.splits)
  with create_node_inv [OF assms(1) assms(2) c] show ?thesis by simp
next
  case False
  with assms show ?thesis by (simp add: finalize_def)
qed

lemma feed_inv:
  "parser_inv sid p prev \<Longrightarrow> deps_ok prev \<Longrightarrow> feed p chunks = (p', ns) \<Longrightarrow>
     parser_inv sid p' (prev @ ns) \<and> deps_ok (prev @ ns)"
proof (induction chunks arbitrary: p prev ns p')
  case Nil
  then show ?case by simp
next
  case (Cons chunk chunks)
  obtain p1 ms where a: "parse_incremental p chunk = (p1, ms)" by (cases "parse_incremental p chunk")
  obtain p2 ms' where b: "feed p1 chunks = (p2, ms')" by (cases "feed p1 chunks")
  from parse_incremental_inv [OF Cons.prems(1) Cons.prems(2) a]
  have "parser_inv sid p1 (prev @ ms)" "deps_ok (prev @ ms)" by simp_all
  from Cons.IH [OF this b] have "parser_inv sid p2 ((prev @ ms) @ ms') \<and> deps_ok ((prev @ ms) @ ms')" .
  moreover from Cons.prems(3) a b have "p' = p2" "ns = ms @ ms'" by auto
  ultimately show ?case by simp
qed

lemma feed_and_finalize_inv:
  assumes "feed_and_finalize (new_parser sid) chunks = (p', ns)"
  shows "parser_inv sid p' ns \<and> deps_ok ns"
proof -
  obtain p1 ms where a: "feed (new_parser sid) chunks = (p1, ms)"
    by (cases "feed (new_parser sid) chunks")
  obtain p2 ms' where b: "finalize p1 = (p2, ms')" by (cases "finalize p1")
  have "parser_inv sid (new_parser sid) []" "deps_ok []"
    by (simp_all add: parser_inv_def deps_ok_def new_parser_def)
  from feed_inv [OF this a] have "parser_inv sid p1 ms" "deps_ok ms" by simp_all
  from finalize_inv [OF this b] have "parser_inv sid p2 (ms @ ms') \<and> deps_ok (ms @ ms')" .
  moreover from assms a b have "p' = p2" "ns = ms @ ms'" by (auto simp: feed_and_finalize_def)
  ultimately show ?thesis by simp
qed

text \<open>
  Claim C5. Let a parser of a session be fed any chunks and then finalized, and let \<open>ns\<close>
  be the nodes it yields, in order. The \<open>k\<close>-th node (counting from 0) carries the
  identifier built from the counter \<open>k + 1\<close>. Every node after the first has a non-empty
  dependency list, and every dependency of a node is the identifier of a node yielded
  strictly before it: it is not the node's own identifier, nor an identifier built from a
  counter equal to or greater than the node's own.
\<close>

theorem dependencies_refer_to_earlier_nodes:
  assumes "ns = snd (feed_and_finalize (new_parser sid) chunks)"
  shows "\<forall>k < length ns.
           node_id (ns ! k) = format_node_id sid (k + 1)
           \<and> (0 < k \<longrightarrow> dependencies (ns ! k) \<noteq> [])
           \<and> (\<forall>d \<in> set (dependencies (ns ! k)).
                 (\<exists>j < k. d = node_id (ns ! j))
                 \<and> d \<noteq> node_id (ns ! k)
                 \<and> (\<forall>m \<ge> k + 1. d \<noteq> format_node_id sid m))"
proof (intro allI impI)
  fix k assume k: "k < length ns"
  obtain p' where "feed_and_finalize (new_parser sid) chunks = (p', ns)"
    using assms by (cases "feed_and_finalize (new_parser sid) chunks") simp
  from feed_and_finalize_inv [OF this] have inv: "parser_inv sid p' ns" and ok: "deps_ok ns"
    by simp_all
  from inv have ids: "\<And>j. j < length ns \<Longrightarrow> node_id (ns ! j) = format_node_id sid (j + 1)"
    by (simp add: parser_inv_def)
  from ok k have ne: "0 < k \<longrightarrow> dependencies (ns ! k) \<noteq> []"
    and ear: "\<And>d. d \<in> set (dependencies (ns ! k)) \<Longrightarrow> \<exists>j < k. d = node_id (ns ! j)"
    by (simp_all add: deps_ok_def)
  have "(\<exists>j < k. d = node_id (ns ! j)) \<and> d \<noteq> node_id (ns ! k)
          \<and> (\<forall>m \<ge> k + 1. d \<noteq> format_node_id sid m)"
    if "d \<in> set (dependencies (ns ! k))" for d
  proof -
    from ear [OF that] obtain j where j: "j < k" "d = node_id (ns ! j)" by blast
    with k ids [of j] have d: "d = format_node_id sid (j + 1)" by simp
    from d j(1) have "\<forall>m \<ge> k + 1. d \<noteq> format_node_id sid m"
      by (auto simp: format_node_id_inj)
    moreover from d j(1) ids [OF k] have "d \<noteq> node_id (ns ! k)"
      by (simp add: format_node_id_inj)
    ultimately show ?thesis using j by blast
  qed
  with ids [OF k] ne
  show "node_id (ns ! k) = format_node_id sid (k + 1)
           \<and> (0 < k \<longrightarrow> dependencies (ns ! k) \<noteq> [])
           \<and> (\<forall>d \<in> set (dependencies (ns ! k)).
                 (\<exists>j < k. d = node_id (ns ! j))
                 \<and> d \<noteq> node_id (ns ! k)
                 \<and> (\<forall>m \<ge> k + 1. d \<noteq> format_node_id sid m))"
    by blast
qed

theorem dependencies_refer_to_earlier_nodes_witness:
  "\<exists>n0 n1.
     snd (feed_and_finalize (new_parser ''s'')
       [''a a a a a a a a a a a a a a a a a a a a. b b b b b b b b b b'']) = [n0, n1]
     \<and> node_id n0 = ''s_node_1'' \<and> node_id n1 = ''s_node_2''
     \<and> dependencies n1 \<noteq> [] \<and> set (dependencies n1) = {''s_node_1''}"
proof -
  let ?t = "''a a a a a a a a a a a a a a a a a a a a. b b b b b b b b b b''"
  let ?A = "''a a a a a a a a a a a a a a a a a a a a''"
  let ?B = "''b b b b b b b b b b''"
  let ?P = "new_parser ''s''"
  define ns where "ns = snd (feed_and_finalize ?P [?t])"
  have acc0: "accumulated_text ?P = []" by (simp add: new_parser_def)
  have g: "split_into_segments ?t 20 = [?A, ?B]" by code_simp
  have sA: "py_strip ?A = ?A" and sB: "py_strip ?B = ?B" by code_simp+
  obtain p1 ns1 where s1: "parse_incremental ?P ?t = (p1, ns1)"
    by (cases "parse_incremental ?P ?t")
  from parse_incremental_emits [OF s1] acc0 g sA
  have b1: "accumulated_text p1 = ?B" and n1: "map content ns1 = [?A]" by simp_all
  obtain p2 ns2 where s2: "finalize p1 = (p2, ns2)" by (cases "finalize p1")
  from finalize_contents [OF s2] b1 sB have n2: "map content ns2 = [?B]" by simp
  have "map content ns = [?A, ?B]"
    using s1 s2 n1 n2 by (simp add: ns_def feed_and_finalize_def)
  then have "length (map content ns) = 2" by (simp only: list.size)
  then have len: "length ns = Suc (Suc 0)" by simp
  then obtain n0 n1 where l: "ns = [n0, n1]"
    by (auto simp: length_Suc_conv)
  have k0: "0 < length ns" and k1: "1 < length ns" using len by simp_all
  note t = dependencies_refer_to_earlier_nodes [OF ns_def]
  note t0 = t [THEN spec, THEN mp, OF k0]
  note t1 = t [THEN spec, THEN mp, OF k1]
  from t0 [THEN conjunct1] l have i0: "node_id n0 = ''s_node_1''"
    by (simp add: format_node_id_def str_nat.simps)
  from t1 [THEN conjunct1] l have i1: "node_id n1 = ''s_node_2''"
    by (simp add: format_node_id_def str_nat.simps)
  from t1 [THEN conjunct2, THEN conjunct1] l have ne: "dependencies n1 \<noteq> []" by simp
  have "d = ''s_node_1''" if "d \<in> set (dependencies n1)" for d
  proof -
    from that l have "d \<in> set (dependencies (ns ! 1))" by simp
    from t1 [THEN conjunct2, THEN conjunct2, THEN bspec, OF this, THEN conjunct1]
    obtain j where "j < 1" "d = node_id (ns ! j)" by blast
    with i0 l show ?thesis by simp
  qed
  with ne have "set (dependencies n1) = {''s_node_1''}"
    by (cases "dependencies n1") auto
  with l i0 i1 ne show ?thesis unfolding ns_def by blast
qed

section \<open>Fragments against the whole text\<close>

text \<open>
  Claim C1: for every text and every way of splitting it into fragments, feeding the
  fragments one at a time and finalizing yields the same segments as feeding the whole
  text in one call and finalizing. The code breaks it. Once a call of
  \<open>parse_incremental\<close> finds more than one segment, it keeps as the buffer the last
  segment as \<open>split_into_segments\<close> rebuilt it, without the sentence mark and the
  whitespace that followed it in the text, and appends the next fragment to that. Below,
  20 words, 10 words and the letter \<open>c\<close>: fed in one piece the second node reads
  \<open>b ... b. c\<close>; with the fragment boundary before the \<open>c\<close> the words are glued and it
  reads \<open>b ... bc\<close>.
\<close>

theorem chunking_changes_the_segments:
  "map content (snd (feed_and_finalize (new_parser ''s'')
      [''a a a a a a a a a a a a a a a a a a a a. b b b b b b b b b b. '', ''c'']))
     = [''a a a a a a a a a a a a a a a a a a a a'', ''b b b b b b b b b bc'']
   \<and> map content (snd (feed_and_finalize (new_parser ''s'')
      [''a a a a a a a a a a a a a a a a a a a a. b b b b b b b b b b. c'']))
     = [''a a a a a a a a a a a a a a a a a a a a'', ''b b b b b b b b b b. c'']
   \<and> set (map content (snd (feed_and_finalize (new_parser ''s'')
      [''a a a a a a a a a a a a a a a a a a a a. b b b b b b b b b b. '', ''c''])))
     \<noteq> set (map content (snd (feed_and_finalize (new_parser ''s'')
      [''a a a a a a a a a a a a a a a a a a a a. b b b b b b b b b b. c''])))"
proof -
  let ?c1 = "''a a a a a a a a a a a a a a a a a a a a. b b b b b b b b b b. ''"
  let ?w = "''a a a a a a a a a a a a a a a a a a a a. b b b b b b b b b b. c''"
  let ?A = "''a a a a a a a a a a a a a a a a a a a a''"
  let ?B = "''b b b b b b b b b b''"
  let ?Bc = "''b b b b b b b b b bc''"
  let ?BC = "''b b b b b b b b b b. c''"
  let ?P = "new_parser ''s''"
  have acc0: "accumulated_text ?P = []" by (simp add: new_parser_def)
  have g1: "split_into_segments ?c1 20 = [?A, ?B]" by code_simp
  have g2: "split_into_segments ?Bc 20 = [?Bc]" by code_simp
  have g3: "split_into_segments ?w 20 = [?A, ?BC]" by code_simp
  have sA: "py_strip ?A = ?A" and sBc: "py_strip ?Bc = ?Bc" and sBC: "py_strip ?BC = ?BC"
    by code_simp+
  \<comment> \<open>in two fragments\<close>
  obtain p1 ns1 where s1: "parse_incremental ?P ?c1 = (p1, ns1)"
    by (cases "parse_incremental ?P ?c1")
  from parse_incremental_emits [OF s1] acc0 g1 sA
  have b1: "accumulated_text p1 = ?B" and n1: "map content ns1 = [?A]" by simp_all
  from b1 g2 have "\<not> 1 < length (split_into_segments (accumulated_text p1 @ ''c'') 20)" by simp
  from parse_incremental_waits [OF this]
  have s2: "parse_incremental p1 ''c'' = (p1\<lparr>accumulated_text := accumulated_text p1 @ ''c''\<rparr>, [])" .
  let ?p2 = "p1\<lparr>accumulated_text := accumulated_text p1 @ ''c''\<rparr>"
  obtain p3 ns3 where s3: "finalize ?p2 = (p3, ns3)" by (cases "finalize ?p2")
  from finalize_contents [OF s3] b1 sBc have n3: "map content ns3 = [?Bc]" by simp
  have two: "map content (snd (feed_and_finalize ?P [?c1, ''c''])) = [?A, ?Bc]"
    using s1 s2 s3 n1 n3 by (simp add: feed_and_finalize_def)
  \<comment> \<open>in one piece\<close>
  obtain q1 ms1 where t1: "parse_incremental ?P ?w = (q1, ms1)"
    by (cases "parse_incremental ?P ?w")
  from parse_incremental_emits [OF t1] acc0 g3 sA
  have c1: "accumulated_text q1 = ?BC" and m1: "map content ms1 = [?A]" by simp_all
  obtain q2 ms2 where t2: "finalize q1 = (q2, ms2)" by (cases "finalize q1")
  from finalize_contents [OF t2] c1 sBC have m2: "map content ms2 = [?BC]" by simp
  have one: "map content (snd (feed_and_finalize ?P [?w])) = [?A, ?BC]"
    using t1 t2 m1 m2 by (simp add: feed_and_finalize_def)
  have "?Bc \<in> set [?A, ?Bc]" by simp
  moreover have "?Bc \<notin> set [?A, ?BC]" by simp
  ultimately have ne: "set [?A, ?Bc] \<noteq> set [?A, ?BC]" by metis
  show ?thesis using ne by (simp only: two one simp_thms)
qed

section \<open>Sweeping old sessions\<close>

lemma remove_session_known:
  assumes "map_of (sessions m) sid = Some s"
  shows "\<exists>m'. remove_session m sid = Inr m'
           \<and> sessions m' = AList.delete sid (sessions m)
           \<and> max_concurrent_per_ip m' = max_concurrent_per_ip m
           \<and> cleanup_hours m' = cleanup_hours m"
  using assms by (simp add: remove_session_def Let_def)

lemma remove_sessions_known:
  "distinct sids \<Longrightarrow> set sids \<subseteq> fst ` set (sessions m) \<Longrightarrow>
     \<exists>m'. remove_sessions m sids = Inr m'
       \<and> sessions m' = filter (\<lambda>(k, s). k \<notin> set sids) (sessions m)
       \<and> max_concurrent_per_ip m' = max_concurrent_per_ip m
       \<and> cleanup_hours m' = cleanup_hours m"
proof (induction sids arbitrary: m)
  case Nil
  then show ?case by simp
next
  case (Cons sid sids)
  from Cons.prems(2) have "sid \<in> fst ` set (sessions m)" by simp
  then obtain s0 where "(sid, s0) \<in> set (sessions m)" by auto
  then obtain s where "map_of (sessions m) sid = Some s"
    using weak_map_of_SomeI by fastforce
  from remove_session_known [OF this] obtain m1 where
    r: "remove_session m sid = Inr m1"
    and s1: "sessions m1 = AList.delete sid (sessions m)"
    and c1: "max_concurrent_per_ip m1 = max_concurrent_per_ip m" "cleanup_hours m1 = cleanup_hours m"
    by blast
  from Cons.prems have "distinct sids" and "sid \<notin> set sids" by simp_all
  have "fst ` set (AList.delete sid (sessions m)) = fst ` set (sessions m) - {sid}"
    by (auto simp: AList.delete_eq)
  with Cons.prems(2) \<open>sid \<notin> set sids\<close> have "set sids \<subseteq> fst ` set (sessions m1)"
    unfolding s1 by auto
  from Cons.IH [OF \<open>distinct sids\<close> this] obtain m' where
    rs: "remove_sessions m1 sids = Inr m'"
    and s2: "sessions m' = filter (\<lambda>(k, s). k \<notin> set sids) (sessions m1)"
    and c2: "max_concurrent_per_ip m' = max_concurrent_per_ip m1" "cleanup_hours m' = cleanup_hours m1"
    by blast
  have "filter (\<lambda>(k, s). k \<notin> set sids) (AList.delete sid (sessions m))
          = filter (\<lambda>(k, s). k \<notin> set (sid # sids)) (sessions m)"
    by (auto simp: AList.delete_eq intro!: filter_cong)
  with r rs s1 s2 c1 c2 show ?case by simp
qed

lemma filter_keys_of_filter:
  assumes "distinct (map fst al)"
  shows "filter (\<lambda>(k, v). k \<notin> set (map fst (filter P al))) al = filter (\<lambda>x. \<not> P x) al"
proof (rule filter_cong [OF refl])
  fix x assume x: "x \<in> set al"
  obtain k v where kv: "x = (k, v)" by (cases x)
  have "k \<in> set (map fst (filter P al)) \<longleftrightarrow> P (k, v)"
  proof
    assume "k \<in> set (map fst (filter P al))"
    then obtain v' where "(k, v') \<in> set al" "P (k, v')" by auto
    with assms x kv have "v' = v" by (meson eq_key_imp_eq_value)
    with \<open>P (k, v')\<close> show "P (k, v)" by simp
  next
    assume "P (k, v)"
    with x kv show "k \<in> set (map fst (filter P al))" by force
  qed
  with kv show "(case x of (k, v) \<Rightarrow> k \<notin> set (map fst (filter P al))) = (\<not> P x)" by simp
qed

lemma cleanup_in_range:
  assumes "cutoff_in_range m now"
  shows "cleanup_old_sessions m now =
           (let ids = map fst (filter (\<lambda>(sid, s). is_old m now s) (sessions m))
            in case remove_sessions m ids of
                 Inl e \<Rightarrow> Inl e
               | Inr m' \<Rightarrow> Inr (m', length ids))"
proof -
  from assms have d: "- 999999999 \<le> cleanup_hours m div 24" "cleanup_hours m div 24 \<le> 999999999"
    and c: "datetime_min \<le> now - hours (cleanup_hours m)"
      "now - hours (cleanup_hours m) \<le> datetime_max"
    by (simp_all add: cutoff_in_range_def)
  from d have t: "timedelta_hours (cleanup_hours m) = Inr (hours (cleanup_hours m))"
    by (simp add: timedelta_hours_def Let_def)
  from c have u: "datetime_sub now (hours (cleanup_hours m)) = Inr (now - hours (cleanup_hours m))"
    by (simp add: datetime_sub_def)
  have o: "(\<lambda>(sid, s). created_at s < now - hours (cleanup_hours m))
             = (\<lambda>(sid, s). is_old m now s)"
    by (simp add: is_old_def)
  show ?thesis
    by (simp add: cleanup_old_sessions_def t u o Let_def)
qed

lemma cleanup_out_of_range:
  assumes "\<not> cutoff_in_range m now"
  shows "\<exists>msg. cleanup_old_sessions m now = Inl (Raised OverflowError msg)"
proof (cases "- 999999999 \<le> cleanup_hours m div 24 \<and> cleanup_hours m div 24 \<le> 999999999")
  case False
  then have "\<exists>msg. timedelta_hours (cleanup_hours m) = Inl (Raised OverflowError msg)"
    by (auto simp: timedelta_hours_def Let_def)
  then show ?thesis by (auto simp: cleanup_old_sessions_def)
next
  case True
  then have t: "timedelta_hours (cleanup_hours m) = Inr (hours (cleanup_hours m))"
    by (simp add: timedelta_hours_def Let_def)
  from True assms have "now - hours (cleanup_hours m) < datetime_min
      \<or> datetime_max < now - hours (cleanup_hours m)"
    by (auto simp: cutoff_in_range_def)
  then have "datetime_sub now (hours (cleanup_hours m))
      = Inl (Raised OverflowError ''date value out of range'')"
    by (simp add: datetime_sub_def)
  with t show ?thesis by (simp add: cleanup_old_sessions_def)
qed

text \<open>
  Claim C8, as stated, fails: not for every retention does the sweep return a count. With
  a retention of 26352000 hours (some 3006 years) and the clock at noon of 3 November
  2026, the cutoff would lie before year 1, the subtraction raises \<open>OverflowError\<close>, and
  the session below, created in 1970, is neither removed nor counted.
\<close>

theorem cleanup_raises_on_large_retention:
  "cleanup_old_sessions
     \<lparr> sessions = [(''a'', new_session ''a'' ''10.0.0.1'' 0)],
       ip_sessions = [(''10.0.0.1'', [''a''])],
       max_concurrent_per_ip = 3, cleanup_hours = 26352000 \<rparr> 1793707200000000
     = Inl (Raised OverflowError ''date value out of range'')"
  by (simp add: cleanup_old_sessions_def timedelta_hours_def datetime_sub_def hours_def
      datetime_min_def datetime_max_def Let_def)

text \<open>
  Claim C8, amended. For every session store (a dictionary), every clock value and every
  retention \<open>cleanup_hours\<close> such that the retention is a \<open>timedelta\<close> and the cutoff
  \<open>now - max_age\<close> is a \<open>datetime\<close>, \<open>cleanup_old_sessions\<close> returns without raising; the
  store it leaves holds exactly the sessions that were not created before the cutoff, each
  unchanged and in the same order, whatever their status; every session created before
  the cutoff is gone; and the number returned is the number of sessions removed. For
  every other retention it raises \<open>OverflowError\<close>, having removed nothing.
\<close>

theorem cleanup_removes_exactly_the_old_sessions:
  assumes "distinct (map fst (sessions m))"
  shows "(cutoff_in_range m now \<longrightarrow>
           (\<exists>m' n. cleanup_old_sessions m now = Inr (m', n)
             \<and> sessions m' = filter (\<lambda>(sid, s). \<not> is_old m now s) (sessions m)
             \<and> (\<forall>sid. get_session m' sid =
                   (case get_session m sid of
                      None \<Rightarrow> None
                    | Some s \<Rightarrow> if is_old m now s then None else Some s))
             \<and> n = length (filter (\<lambda>(sid, s). is_old m now s) (sessions m))
             \<and> n = length (sessions m) - length (sessions m')))
         \<and> (\<not> cutoff_in_range m now \<longrightarrow>
              (\<exists>msg. cleanup_old_sessions m now = Inl (Raised OverflowError msg)))"
proof (intro conjI impI)
  assume "\<not> cutoff_in_range m now"
  then show "\<exists>msg. cleanup_old_sessions m now = Inl (Raised OverflowError msg)"
    by (rule cleanup_out_of_range)
next
  assume r: "cutoff_in_range m now"
  let ?old = "\<lambda>(sid, s). is_old m now s"
  let ?ids = "map fst (filter ?old (sessions m))"
  from assms have d: "distinct ?ids" by (rule distinct_map_filter)
  have "set ?ids \<subseteq> fst ` set (sessions m)" by auto
  from remove_sessions_known [OF d this] obtain m' where
    r': "remove_sessions m ?ids = Inr m'"
    and s: "sessions m' = filter (\<lambda>(k, s). k \<notin> set ?ids) (sessions m)"
    by blast
  from s filter_keys_of_filter [OF assms, of ?old]
  have s': "sessions m' = filter (\<lambda>x. \<not> ?old x) (sessions m)" by simp
  then have s'': "sessions m' = filter (\<lambda>(sid, s). \<not> is_old m now s) (sessions m)"
    by (simp add: split_def)
  have c: "cleanup_old_sessions m now = Inr (m', length ?ids)"
    using r' by (simp add: cleanup_in_range [OF r] Let_def)
  have g: "get_session m' sid =
             (case get_session m sid of
                None \<Rightarrow> None
              | Some s \<Rightarrow> if is_old m now s then None else Some s)" for sid
  proof (cases "map_of (sessions m) sid")
    case None
    then have "sid \<notin> fst ` set (sessions m)" by (simp add: map_of_eq_None_iff)
    then have "sid \<notin> fst ` set (sessions m')" unfolding s'' by auto
    then have "map_of (sessions m') sid = None" by (simp add: map_of_eq_None_iff)
    with None show ?thesis by (simp add: get_session_def)
  next
    case (Some s0)
    then have mem: "(sid, s0) \<in> set (sessions m)" by (rule map_of_SomeD)
    from assms have dm: "distinct (map fst (sessions m'))"
      unfolding s'' by (rule distinct_map_filter)
    show ?thesis
    proof (cases "is_old m now s0")
      case True
      have "sid \<notin> fst ` set (sessions m')"
      proof
        assume "sid \<in> fst ` set (sessions m')"
        then obtain s1 where "(sid, s1) \<in> set (sessions m)" "\<not> is_old m now s1"
          unfolding s'' by auto
        with assms mem have "s1 = s0" by (meson eq_key_imp_eq_value)
        with True \<open>\<not> is_old m now s1\<close> show False by simp
      qed
      then have "map_of (sessions m') sid = None" by (simp add: map_of_eq_None_iff)
      with Some True show ?thesis by (simp add: get_session_def)
    next
      case False
      with mem have "(sid, s0) \<in> set (sessions m')" unfolding s'' by simp
      with dm have "map_of (sessions m') sid = Some s0" by simp
      with Some False show ?thesis by (simp add: get_session_def)
    qed
  qed
  have "length (sessions m) = length (filter ?old (sessions m)) + length (filter (\<lambda>x. \<not> ?old x) (sessions m))"
    by (rule sum_length_filter_compl [symmetric])
  with s' have n2: "length ?ids = length (sessions m) - length (sessions m')" by simp
  have n1: "length ?ids = length (filter (\<lambda>(sid, s). is_old m now s) (sessions m))" by simp
  from c s'' g n1 n2
  show "\<exists>m' n. cleanup_old_sessions m now = Inr (m', n)
             \<and> sessions m' = filter (\<lambda>(sid, s). \<not> is_old m now s) (sessions m)
             \<and> (\<forall>sid. get_session m' sid =
                   (case get_session m sid of
                      None \<Rightarrow> None
                    | Some s \<Rightarrow> if is_old m now s then None else Some s))
             \<and> n = length (filter (\<lambda>(sid, s). is_old m now s) (sessions m))
             \<and> n = length (sessions m) - length (sessions m')"
    by blast
qed

theorem cleanup_removes_exactly_the_old_sessions_witness:
  "distinct (map fst (sessions
     \<lparr> sessions = [(''a'', (new_session ''a'' ''10.0.0.1'' 0)\<lparr>status := ''completed''\<rparr>),
                   (''b'', (new_session ''b'' ''10.0.0.1'' 10)\<lparr>status := ''streaming''\<rparr>),
                   (''c'', new_session ''c'' ''10.0.0.2'' 7200000000)],
       ip_sessions = [(''10.0.0.1'', [''b'']), (''10.0.0.2'', [''c''])],
       max_concurrent_per_ip = 3, cleanup_hours = 1 \<rparr>))
   \<and> cutoff_in_range
     \<lparr> sessions = [(''a'', (new_session ''a'' ''10.0.0.1'' 0)\<lparr>status := ''completed''\<rparr>),
                   (''b'', (new_session ''b'' ''10.0.0.1'' 10)\<lparr>status := ''streaming''\<rparr>),
                   (''c'', new_session ''c'' ''10.0.0.2'' 7200000000)],
       ip_sessions = [(''10.0.0.1'', [''b'']), (''10.0.0.2'', [''c''])],
       max_concurrent_per_ip = 3, cleanup_hours = 1 \<rparr> 7200000001
   \<and> (\<exists>m'. cleanup_old_sessions
          \<lparr> sessions = [(''a'', (new_session ''a'' ''10.0.0.1'' 0)\<lparr>status := ''completed''\<rparr>),
                        (''b'', (new_session ''b'' ''10.0.0.1'' 10)\<lparr>status := ''streaming''\<rparr>),
                        (''c'', new_session ''c'' ''10.0.0.2'' 7200000000)],
            ip_sessions = [(''10.0.0.1'', [''b'']), (''10.0.0.2'', [''c''])],
            max_concurrent_per_ip = 3, cleanup_hours = 1 \<rparr> 7200000001 = Inr (m', 2)
        \<and> sessions m' = [(''c'', new_session ''c'' ''10.0.0.2'' 7200000000)])
   \<and> \<not> cutoff_in_range
     \<lparr> sessions = [], ip_sessions = [], max_concurrent_per_ip = 3,
       cleanup_hours = 24000000000 \<rparr> 7200000001
   \<and> (\<exists>msg. cleanup_old_sessions
          \<lparr> sessions = [], ip_sessions = [], max_concurrent_per_ip = 3,
            cleanup_hours = 24000000000 \<rparr> 7200000001 = Inl (Raised OverflowError msg))"
proof -
  let ?m = "\<lparr> sessions = [(''a'', (new_session ''a'' ''10.0.0.1'' 0)\<lparr>status := ''completed''\<rparr>),
                        (''b'', (new_session ''b'' ''10.0.0.1'' 10)\<lparr>status := ''streaming''\<rparr>),
                        (''c'', new_session ''c'' ''10.0.0.2'' 7200000000)],
            ip_sessions = [(''10.0.0.1'', [''b'']), (''10.0.0.2'', [''c''])],
            max_concurrent_per_ip = 3, cleanup_hours = 1 \<rparr>"
  let ?e = "\<lparr> sessions = [], ip_sessions = [], max_concurrent_per_ip = 3,
            cleanup_hours = 24000000000 \<rparr> :: session_manager"
  have d: "distinct (map fst (sessions ?m))" by simp
  have de: "distinct (map fst (sessions ?e))" by simp
  have r: "cutoff_in_range ?m 7200000001"
    by (simp add: cutoff_in_range_def hours_def datetime_min_def datetime_max_def)
  have nr: "\<not> cutoff_in_range ?e 7200000001"
    by (simp add: cutoff_in_range_def)
  have k: "filter (\<lambda>(sid, s). \<not> is_old ?m 7200000001 s) (sessions ?m)
             = [(''c'', new_session ''c'' ''10.0.0.2'' 7200000000)]"
    by (simp add: is_old_def hours_def new_session_def)
  have n: "length (filter (\<lambda>(sid, s). is_old ?m 7200000001 s) (sessions ?m)) = 2"
    by (simp add: is_old_def hours_def new_session_def)
  from cleanup_removes_exactly_the_old_sessions [OF d, of 7200000001, THEN conjunct1, THEN mp, OF r]
  obtain m' where "\<exists>n. cleanup_old_sessions ?m 7200000001 = Inr (m', n)
     \<and> sessions m' = filter (\<lambda>(sid, s). \<not> is_old ?m 7200000001 s) (sessions ?m)
     \<and> (\<forall>sid. get_session m' sid =
           (case get_session ?m sid of
              None \<Rightarrow> None
            | Some s \<Rightarrow> if is_old ?m 7200000001 s then None else Some s))
     \<and> n = length (filter (\<lambda>(sid, s). is_old ?m 7200000001 s) (sessions ?m))
     \<and> n = length (sessions ?m) - length (sessions m')"
    by (rule exE)
  then obtain n where x: "cleanup_old_sessions ?m 7200000001 = Inr (m', n)
     \<and> sessions m' = filter (\<lambda>(sid, s). \<not> is_old ?m 7200000001 s) (sessions ?m)
     \<and> (\<forall>sid. get_session m' sid =
           (case get_session ?m sid of
              None \<Rightarrow> None
            | Some s \<Rightarrow> if is_old ?m 7200000001 s then None else Some s))
     \<and> n = length (filter (\<lambda>(sid, s). is_old ?m 7200000001 s) (sessions ?m))
     \<and> n = length (sessions ?m) - length (sessions m')"
    by (rule exE)
  note x1 = x [THEN conjunct1]
  note x2 = x [THEN conjunct2, THEN conjunct1]
  note x4 = x [THEN conjunct2, THEN conjunct2, THEN conjunct2, THEN conjunct1]
  from x4 have n2: "n = 2" by (simp only: n)
  from x1 have y1: "cleanup_old_sessions ?m 7200000001 = Inr (m', 2)" by (simp only: n2)
  from x2 have y2: "sessions m' = [(''c'', new_session ''c'' ''10.0.0.2'' 7200000000)]"
    by (simp only: k)
  have a: "\<exists>m'. cleanup_old_sessions ?m 7200000001 = Inr (m', 2)
      \<and> sessions m' = [(''c'', new_session ''c'' ''10.0.0.2'' 7200000000)]"
    by (rule exI [where x = m'], rule conjI [OF y1 y2])
  have b: "\<exists>msg. cleanup_old_sessions ?e 7200000001 = Inl (Raised OverflowError msg)"
    by (rule cleanup_removes_exactly_the_old_sessions
          [OF de, of 7200000001, THEN conjunct2, THEN mp, OF nr])
  show ?thesis
    by (rule conjI [OF d conjI [OF r conjI [OF a conjI [OF nr b]]]])
qed

section \<open>Appending and updating\<close>







section \<open>The per-IP cap\<close>

lemma starts_with_append: "starts_with (p @ b) p"
  by (induction p) simp_all

lemma py_in_append: "py_in p (a @ p @ b)"
proof (induction a)
  case Nil
  show ?case
  proof (cases "p @ b")
    case Nil
    then show ?thesis by simp
  next
    case (Cons c cs)
    with starts_with_append [of p b] show ?thesis by simp
  qed
next
  case (Cons c a)
  then show ?case by simp
qed

lemma tracked_after_check:
  "tracked (fst (get_active_sessions_for_ip m ip)) ip'
     = (if ip' = ip then filter (is_active m) (tracked m ip) else tracked m ip')"
  by (cases "map_of (ip_sessions m) ip")
    (simp_all add: get_active_sessions_for_ip_def Let_def tracked_def update_conv')

lemma check_frame:
  "sessions (fst (get_active_sessions_for_ip m ip)) = sessions m"
  "max_concurrent_per_ip (fst (get_active_sessions_for_ip m ip)) = max_concurrent_per_ip m"
  "cleanup_hours (fst (get_active_sessions_for_ip m ip)) = cleanup_hours m"
  "snd (get_active_sessions_for_ip m ip) = filter (is_active m) (tracked m ip)"
  by (simp_all add: get_active_sessions_for_ip_def Let_def)

lemma is_active_iff:
  "is_active m sid \<longleftrightarrow>
     (\<exists>s. map_of (sessions m) sid = Some s \<and> status s \<notin> set [''completed'', ''error''])"
  by (cases "map_of (sessions m) sid") (simp_all add: is_active_def)

lemma active_list_count:
  assumes "tracking_ok m"
  shows "length (filter (is_active m) (tracked m ip)) = active_count m ip"
proof -
  let ?P = "\<lambda>(sid, s). ip_address s = ip \<and> status s \<notin> set [''completed'', ''error'']"
  let ?A = "set (filter (is_active m) (tracked m ip))"
  let ?B = "set (filter ?P (sessions m))"
  from assms have dk: "distinct (map fst (sessions m))"
    and dt: "distinct (tracked m ip)"
    and inv3: "\<And>sid. sid \<in> set (tracked m ip) \<Longrightarrow>
                 \<exists>s. map_of (sessions m) sid = Some s \<and> ip_address s = ip"
    and inv4: "\<And>sid s. map_of (sessions m) sid = Some s \<Longrightarrow>
                 status s \<notin> set [''completed'', ''error''] \<Longrightarrow> sid \<in> set (tracked m (ip_address s))"
    unfolding tracking_ok_def by blast+
  from dk have ds: "distinct (sessions m)" by (simp add: distinct_map)
  have inj: "inj_on fst ?B"
  proof (rule inj_onI)
    fix a b assume "a \<in> ?B" "b \<in> ?B" "fst a = fst b"
    then have "(fst a, snd a) \<in> set (sessions m)" "(fst a, snd b) \<in> set (sessions m)" by auto
    with dk have "snd a = snd b" by (rule eq_key_imp_eq_value)
    with \<open>fst a = fst b\<close> show "a = b" by (simp add: prod_eq_iff)
  qed
  have img: "fst ` ?B = ?A"
  proof (rule set_eqI)
    fix sid
    show "sid \<in> fst ` ?B \<longleftrightarrow> sid \<in> ?A"
    proof
      assume "sid \<in> fst ` ?B"
      then obtain s where mem: "(sid, s) \<in> set (sessions m)" and ip: "ip_address s = ip"
        and st: "status s \<notin> set [''completed'', ''error'']" by auto
      from dk mem have look: "map_of (sessions m) sid = Some s" by simp
      from inv4 [OF look st] ip have "sid \<in> set (tracked m ip)" by simp
      moreover from look st have "is_active m sid" unfolding is_active_iff by blast
      ultimately show "sid \<in> ?A" by simp
    next
      assume "sid \<in> ?A"
      then have t: "sid \<in> set (tracked m ip)" and a: "is_active m sid" by simp_all
      from a obtain s where look: "map_of (sessions m) sid = Some s"
        and st: "status s \<notin> set [''completed'', ''error'']" unfolding is_active_iff by blast
      from inv3 [OF t] look have ip: "ip_address s = ip" by auto
      from look have "(sid, s) \<in> set (sessions m)" by (rule map_of_SomeD)
      with ip st have "(sid, s) \<in> ?B" by simp
      then show "sid \<in> fst ` ?B" by force
    qed
  qed
  from dt have "distinct (filter (is_active m) (tracked m ip))" by simp
  then have "card ?A = length (filter (is_active m) (tracked m ip))" by (rule distinct_card)
  then have "length (filter (is_active m) (tracked m ip)) = card ?A" by (rule sym)
  also have "\<dots> = card (fst ` ?B)" by (simp only: img)
  also have "\<dots> = card ?B" using inj by (rule card_image)
  also have "\<dots> = length (filter ?P (sessions m))"
  proof (rule distinct_card)
    from ds show "distinct (filter ?P (sessions m))" by simp
  qed
  finally show ?thesis by (simp add: active_count_def)
qed

lemma tracking_ok_new: "tracking_ok (new_session_manager cap h)"
  by (simp add: tracking_ok_def new_session_manager_def tracked_def)

lemma tracking_ok_check:
  assumes "tracking_ok m"
  shows "tracking_ok (fst (get_active_sessions_for_ip m ip))"
proof -
  let ?m1 = "fst (get_active_sessions_for_ip m ip)"
  from assms have dk: "distinct (map fst (sessions m))"
    and dt: "\<And>ip'. distinct (tracked m ip')"
    and inv3: "\<And>ip' sid. sid \<in> set (tracked m ip') \<Longrightarrow>
                 \<exists>s. map_of (sessions m) sid = Some s \<and> ip_address s = ip'"
    and inv4: "\<And>sid s. map_of (sessions m) sid = Some s \<Longrightarrow>
                 status s \<notin> set [''completed'', ''error''] \<Longrightarrow> sid \<in> set (tracked m (ip_address s))"
    unfolding tracking_ok_def by blast+
  have a: "distinct (map fst (sessions ?m1))" using dk by (simp add: check_frame)
  have b: "distinct (tracked ?m1 ip')" for ip'
    using dt by (simp add: tracked_after_check)
  have c: "\<exists>s. map_of (sessions ?m1) sid = Some s \<and> ip_address s = ip'"
    if "sid \<in> set (tracked ?m1 ip')" for ip' sid
  proof -
    from that have "sid \<in> set (tracked m ip')"
      by (simp add: tracked_after_check split: if_splits)
    from inv3 [OF this] show ?thesis by (simp add: check_frame)
  qed
  have d: "sid \<in> set (tracked ?m1 (ip_address s))"
    if "map_of (sessions ?m1) sid = Some s" "status s \<notin> set [''completed'', ''error'']" for sid s
  proof -
    from that have look: "map_of (sessions m) sid = Some s" by (simp add: check_frame)
    from inv4 [OF look that(2)] have t: "sid \<in> set (tracked m (ip_address s))" .
    from look that(2) have "is_active m sid" unfolding is_active_iff by blast
    with t show ?thesis by (auto simp: tracked_after_check)
  qed
  from a b c d show ?thesis unfolding tracking_ok_def by blast
qed

lemma create_session_refused:
  assumes "max_concurrent_per_ip m \<le> int (length (filter (is_active m) (tracked m ip)))"
  shows "create_session m ip new_id now
           = (fst (get_active_sessions_for_ip m ip),
              Inl (Raised Exception (rate_limit_message (max_concurrent_per_ip m))))"
proof -
  obtain m1 act where g: "get_active_sessions_for_ip m ip = (m1, act)"
    by (cases "get_active_sessions_for_ip m ip")
  from g check_frame(2) [of m ip] check_frame(4) [of m ip]
  have "max_concurrent_per_ip m1 = max_concurrent_per_ip m"
    and "act = filter (is_active m) (tracked m ip)" by simp_all
  with assms g show ?thesis by (simp add: create_session_def)
qed

lemma create_session_accepted:
  assumes "\<not> max_concurrent_per_ip m \<le> int (length (filter (is_active m) (tracked m ip)))"
  shows "\<exists>m'. create_session m ip new_id now = (m', Inr (new_session new_id ip now))
          \<and> sessions m' = AList.update new_id (new_session new_id ip now) (sessions m)
          \<and> max_concurrent_per_ip m' = max_concurrent_per_ip m
          \<and> cleanup_hours m' = cleanup_hours m
          \<and> (\<forall>ip'. tracked m' ip' =
                (if ip' = ip then filter (is_active m) (tracked m ip) @ [new_id]
                 else tracked m ip'))"
proof -
  obtain m1 act where g: "get_active_sessions_for_ip m ip = (m1, act)"
    by (cases "get_active_sessions_for_ip m ip")
  from g check_frame [of m ip] tracked_after_check [of m ip]
  have f: "sessions m1 = sessions m" "max_concurrent_per_ip m1 = max_concurrent_per_ip m"
    "cleanup_hours m1 = cleanup_hours m" "act = filter (is_active m) (tracked m ip)"
    and t: "\<And>ip'. tracked m1 ip' = (if ip' = ip then filter (is_active m) (tracked m ip) else tracked m ip')"
    by simp_all
  let ?s = "new_session new_id ip now"
  let ?m2 = "m1\<lparr>sessions := AList.update new_id ?s (sessions m1)\<rparr>"
  let ?m3 = "?m2\<lparr>ip_sessions := AList.update ip (tracked ?m2 ip @ [new_id]) (ip_sessions ?m2)\<rparr>"
  have c: "create_session m ip new_id now = (?m3, Inr ?s)"
    using assms g f by (simp add: create_session_def Let_def)
  have t2: "tracked ?m2 ip' = tracked m1 ip'" for ip' by (simp add: tracked_def)
  have t3: "tracked ?m3 ip' = (if ip' = ip then tracked m1 ip @ [new_id] else tracked m1 ip')" for ip'
    by (simp add: tracked_def update_conv')
  from c f t t3 show ?thesis by simp
qed

lemma tracking_ok_create:
  assumes "tracking_ok m" and "new_id \<notin> fst ` set (sessions m)"
  shows "tracking_ok (fst (create_session m ip new_id now))"
proof (cases "max_concurrent_per_ip m \<le> int (length (filter (is_active m) (tracked m ip)))")
  case True
  from create_session_refused [OF True] tracking_ok_check [OF assms(1)] show ?thesis by simp
next
  case False
  let ?s = "new_session new_id ip now"
  from create_session_accepted [OF False, of new_id now] obtain m' where
    c: "create_session m ip new_id now = (m', Inr ?s)"
    and s: "sessions m' = AList.update new_id ?s (sessions m)"
    and t: "\<And>ip'. tracked m' ip' =
                (if ip' = ip then filter (is_active m) (tracked m ip) @ [new_id]
                 else tracked m ip')"
    by blast
  from assms(1) have dk: "distinct (map fst (sessions m))"
    and dt: "\<And>ip'. distinct (tracked m ip')"
    and inv3: "\<And>ip' sid. sid \<in> set (tracked m ip') \<Longrightarrow>
                 \<exists>s. map_of (sessions m) sid = Some s \<and> ip_address s = ip'"
    and inv4: "\<And>sid s. map_of (sessions m) sid = Some s \<Longrightarrow>
                 status s \<notin> set [''completed'', ''error''] \<Longrightarrow> sid \<in> set (tracked m (ip_address s))"
    unfolding tracking_ok_def by blast+
  from assms(2) have fresh: "map_of (sessions m) new_id = None"
    by (simp add: map_of_eq_None_iff)
  have look: "map_of (sessions m') sid = (if sid = new_id then Some ?s else map_of (sessions m) sid)" for sid
    by (simp add: s update_conv')
  have nt: "new_id \<notin> set (tracked m ip')" for ip'
  proof
    assume "new_id \<in> set (tracked m ip')"
    from inv3 [OF this] fresh show False by simp
  qed
  have a: "distinct (map fst (sessions m'))" unfolding s using dk by (rule distinct_update)
  have b: "distinct (tracked m' ip')" for ip'
    using dt [of ip'] dt [of ip] nt [of ip] by (simp add: t)
  have c3: "\<exists>s. map_of (sessions m') sid = Some s \<and> ip_address s = ip'"
    if "sid \<in> set (tracked m' ip')" for ip' sid
  proof (cases "sid = new_id")
    case True
    with that nt [of ip'] have "ip' = ip" by (simp add: t split: if_splits)
    with True show ?thesis by (simp add: look new_session_def)
  next
    case False
    with that have "sid \<in> set (tracked m ip')" by (simp add: t split: if_splits)
    from inv3 [OF this] False show ?thesis by (simp add: look)
  qed
  have d: "sid \<in> set (tracked m' (ip_address s0))"
    if "map_of (sessions m') sid = Some s0" "status s0 \<notin> set [''completed'', ''error'']" for sid s0
  proof (cases "sid = new_id")
    case True
    with that(1) have "s0 = ?s" by (simp add: look)
    then have "ip_address s0 = ip" by (simp add: new_session_def)
    with True show ?thesis by (simp add: t)
  next
    case False
    with that(1) have l0: "map_of (sessions m) sid = Some s0" by (simp add: look)
    from inv4 [OF l0 that(2)] have t0: "sid \<in> set (tracked m (ip_address s0))" .
    from l0 that(2) have "is_active m sid" unfolding is_active_iff by blast
    with t0 show ?thesis by (auto simp: t)
  qed
  from a b c3 d have "tracking_ok m'" unfolding tracking_ok_def by blast
  with c show ?thesis by simp
qed

section \<open>The index agrees with the store after every operation\<close>

lemma tracking_ok_replace:
  assumes "tracking_ok m" and "map_of (sessions m) sid = Some s"
    and "ip_address s' = ip_address s"
    and "status s' \<notin> set [''completed'', ''error''] \<longrightarrow> status s \<notin> set [''completed'', ''error'']"
  shows "tracking_ok (m\<lparr>sessions := AList.update sid s' (sessions m)\<rparr>)"
proof -
  let ?m' = "m\<lparr>sessions := AList.update sid s' (sessions m)\<rparr>"
  from assms(1) have dk: "distinct (map fst (sessions m))"
    and dt: "\<And>ip'. distinct (tracked m ip')"
    and inv3: "\<And>ip' k. k \<in> set (tracked m ip') \<Longrightarrow>
                 \<exists>s. map_of (sessions m) k = Some s \<and> ip_address s = ip'"
    and inv4: "\<And>k s. map_of (sessions m) k = Some s \<Longrightarrow>
                 status s \<notin> set [''completed'', ''error''] \<Longrightarrow> k \<in> set (tracked m (ip_address s))"
    unfolding tracking_ok_def by blast+
  have look: "map_of (AList.update sid s' (sessions m)) k
                = (if k = sid then Some s' else map_of (sessions m) k)" for k
    by (simp add: update_conv')
  have tr: "tracked ?m' ip' = tracked m ip'" for ip' by (simp add: tracked_def)
  have a: "distinct (map fst (sessions ?m'))" using dk by (simp add: distinct_update)
  have b: "distinct (tracked ?m' ip')" for ip' using dt by (simp add: tr)
  have c: "\<exists>s. map_of (sessions ?m') k = Some s \<and> ip_address s = ip'"
    if "k \<in> set (tracked ?m' ip')" for ip' k
  proof -
    from that have "k \<in> set (tracked m ip')" by (simp add: tr)
    from inv3 [OF this] obtain s0 where s0: "map_of (sessions m) k = Some s0" "ip_address s0 = ip'"
      by blast
    show ?thesis
    proof (cases "k = sid")
      case True
      with s0 assms(2) assms(3) show ?thesis by (simp add: look)
    next
      case False
      with s0 show ?thesis by (simp add: look)
    qed
  qed
  have d: "k \<in> set (tracked ?m' (ip_address s0))"
    if "map_of (sessions ?m') k = Some s0" "status s0 \<notin> set [''completed'', ''error'']" for k s0
  proof (cases "k = sid")
    case True
    with that(1) have e: "s0 = s'" by (simp add: look)
    with that(2) assms(4) have "status s \<notin> set [''completed'', ''error'']" by blast
    from inv4 [OF assms(2) this] True e assms(3) show ?thesis by (simp add: tr)
  next
    case False
    with that(1) have "map_of (sessions m) k = Some s0" by (simp add: look)
    from inv4 [OF this that(2)] show ?thesis by (simp add: tr)
  qed
  from a b c d show ?thesis unfolding tracking_ok_def by blast
qed

lemma tracking_ok_add_thought_node:
  assumes "tracking_ok m"
  shows "tracking_ok (add_thought_node m sid n)"
proof (cases "map_of (sessions m) sid")
  case None
  with assms show ?thesis by (simp add: add_thought_node_def get_session_def)
next
  case (Some s)
  from tracking_ok_replace [OF assms Some, of "s\<lparr>thought_nodes := thought_nodes s @ [n]\<rparr>"] Some
  show ?thesis by (simp add: add_thought_node_def get_session_def)
qed

text \<open>
  \<open>update_session\<close> keeps the agreement as long as it neither changes the address of a
  session nor takes a session out of a terminal status; \<open>run_analysis\<close> does neither.
\<close>

lemma tracking_ok_update_session:
  assumes "tracking_ok m"
    and "\<And>s. map_of (sessions m) sid = Some s \<Longrightarrow>
           ip_address (fold set_field kwargs s) = ip_address s"
    and "\<And>s. map_of (sessions m) sid = Some s \<Longrightarrow>
           status (fold set_field kwargs s) \<notin> set [''completed'', ''error''] \<Longrightarrow>
           status s \<notin> set [''completed'', ''error'']"
  shows "tracking_ok (update_session m sid kwargs)"
proof (cases "map_of (sessions m) sid")
  case None
  with assms(1) show ?thesis by (simp add: update_session_def get_session_def)
next
  case (Some s)
  from tracking_ok_replace [OF assms(1) Some assms(2) [OF Some]] assms(3) [OF Some] Some
  show ?thesis by (simp add: update_session_def get_session_def)
qed

lemma tracking_ok_remove_session:
  assumes "tracking_ok m" and "remove_session m sid = Inr m'"
  shows "tracking_ok m'"
proof -
  from assms(2) obtain s where look: "map_of (sessions m) sid = Some s"
    by (cases "map_of (sessions m) sid") (simp_all add: remove_session_def)
  let ?ip = "ip_address s"
  from assms(1) have dk: "distinct (map fst (sessions m))"
    and dt: "\<And>ip'. distinct (tracked m ip')"
    and inv3: "\<And>ip' k. k \<in> set (tracked m ip') \<Longrightarrow>
                 \<exists>s. map_of (sessions m) k = Some s \<and> ip_address s = ip'"
    and inv4: "\<And>k s. map_of (sessions m) k = Some s \<Longrightarrow>
                 status s \<notin> set [''completed'', ''error''] \<Longrightarrow> k \<in> set (tracked m (ip_address s))"
    unfolding tracking_ok_def by blast+
  have s': "sessions m' = AList.delete sid (sessions m)"
    using assms(2) look by (auto simp: remove_session_def Let_def)
  have tr: "tracked m' ip' = (if ip' = ?ip then remove1 sid (tracked m ?ip) else tracked m ip')" for ip'
  proof (cases "map_of (ip_sessions m) ?ip \<noteq> None \<and> sid \<in> set (tracked m ?ip)")
    case True
    with assms(2) look show ?thesis
      by (auto simp: remove_session_def Let_def tracked_def update_conv')
  next
    case False
    then have "sid \<notin> set (tracked m ?ip)" by (auto simp: tracked_def)
    then have "remove1 sid (tracked m ?ip) = tracked m ?ip" by (rule remove1_idem)
    moreover from False assms(2) look have "ip_sessions m' = ip_sessions m"
      by (auto simp: remove_session_def Let_def)
    ultimately show ?thesis by (simp add: tracked_def)
  qed
  have sub: "set (tracked m' ip') \<subseteq> set (tracked m ip')" for ip'
    using set_remove1_subset [of sid "tracked m ?ip"] by (auto simp: tr)
  have gone: "sid \<notin> set (tracked m' ip')" for ip'
  proof (cases "ip' = ?ip")
    case True
    with dt [of ?ip] show ?thesis by (simp add: tr)
  next
    case False
    show ?thesis
    proof
      assume "sid \<in> set (tracked m' ip')"
      with False have "sid \<in> set (tracked m ip')" by (simp add: tr)
      from inv3 [OF this] look False show False by simp
    qed
  qed
  have lk: "map_of (sessions m') k = (if k = sid then None else map_of (sessions m) k)" for k
    by (simp add: s' delete_conv')
  have a: "distinct (map fst (sessions m'))" unfolding s' using dk by (rule distinct_delete)
  have b: "distinct (tracked m' ip')" for ip' using dt by (simp add: tr)
  have c: "\<exists>s. map_of (sessions m') k = Some s \<and> ip_address s = ip'"
    if "k \<in> set (tracked m' ip')" for ip' k
  proof -
    from that gone [of ip'] have "k \<noteq> sid" by blast
    moreover from that sub have "k \<in> set (tracked m ip')" by blast
    from inv3 [OF this] obtain s0 where "map_of (sessions m) k = Some s0" "ip_address s0 = ip'"
      by blast
    ultimately show ?thesis by (simp add: lk)
  qed
  have d: "k \<in> set (tracked m' (ip_address s0))"
    if "map_of (sessions m') k = Some s0" "status s0 \<notin> set [''completed'', ''error'']" for k s0
  proof -
    from that(1) have ne: "k \<noteq> sid" and l0: "map_of (sessions m) k = Some s0"
      by (simp_all add: lk split: if_splits)
    from inv4 [OF l0 that(2)] have "k \<in> set (tracked m (ip_address s0))" .
    with ne show ?thesis by (auto simp: tr)
  qed
  from a b c d show ?thesis unfolding tracking_ok_def by blast
qed

lemma tracking_ok_remove_sessions:
  "tracking_ok m \<Longrightarrow> remove_sessions m sids = Inr m' \<Longrightarrow> tracking_ok m'"
proof (induction sids arbitrary: m)
  case Nil
  then show ?case by simp
next
  case (Cons sid sids)
  from Cons.prems(2) obtain m1 where r: "remove_session m sid = Inr m1"
    and rs: "remove_sessions m1 sids = Inr m'"
    by (cases "remove_session m sid") simp_all
  from tracking_ok_remove_session [OF Cons.prems(1) r] have "tracking_ok m1" .
  from Cons.IH [OF this rs] show ?case .
qed

lemma tracking_ok_cleanup:
  assumes "tracking_ok m" and "cleanup_old_sessions m now = Inr (m', n)"
  shows "tracking_ok m'"
proof -
  from assms(2) obtain ids where "remove_sessions m ids = Inr m'"
    by (auto simp: cleanup_old_sessions_def Let_def split: sum.splits)
  with assms(1) show ?thesis by (rule tracking_ok_remove_sessions)
qed

section \<open>Creating a session at the cap\<close>

text \<open>
  Claim C3, as stated, fails in two respects. There is no \<open>RateLimitExceeded\<close> condition:
  at the cap, \<open>create_session\<close> raises the class \<open>Exception\<close> itself, the generic one, and
  only the text of its message tells the refusal from any other failure. And what is
  counted is the index, not the store: a session that was terminal when the index was
  last rewritten and has been set back to a non-terminal status is not counted, so with
  three non-terminal sessions of one address in the store and cap 3, a fourth is created.
\<close>

theorem rate_limit_raises_generic_exception:
  "map fst (sessions three_sessions) = [''session_a'', ''session_b'', ''session_c'']
   \<and> active_count three_sessions ''10.0.0.1'' = 3
   \<and> snd (create_session three_sessions ''10.0.0.1'' ''session_d'' 4)
       = Inl (Raised Exception ''Rate limit exceeded: Maximum 3 concurrent sessions per IP'')
   \<and> max_concurrent_per_ip revived_session = 3
   \<and> active_count revived_session ''10.0.0.1'' = 3
   \<and> listed_active revived_session ''10.0.0.1'' = [''session_b'', ''session_c'']
   \<and> snd (create_session revived_session ''10.0.0.1'' ''session_d'' 4)
       = Inr (new_session ''session_d'' ''10.0.0.1'' 4)
   \<and> active_count (fst (create_session revived_session ''10.0.0.1'' ''session_d'' 4))
        ''10.0.0.1'' = 4"
  by code_simp

text \<open>
  Claim C3, amended. For every manager state and every IP address, when the number of
  session identifiers that the index \<open>ip_sessions\<close> lists for that address and whose
  session is in the store and not in a terminal status (what
  \<open>_get_active_sessions_for_ip\<close> returns) equals or exceeds the configured cap,
  \<open>create_session\<close> for that address raises an \<open>Exception\<close> (the generic class) whose
  message is \<open>Rate limit exceeded: Maximum N concurrent sessions per IP\<close> with \<open>N\<close> the
  configured cap in decimal, and the session store is left as it was, so no session is
  added. In a state where the index agrees with the store (\<open>tracking_ok\<close>), that number
  is the number of sessions of the address in the store that are not in a terminal
  status, and the state after the refusal agrees again; so there, with cap 3, a fourth
  concurrent non-terminal session is not created.
\<close>

theorem create_session_at_cap:
  assumes "max_concurrent_per_ip m \<le> int (length (listed_active m ip))"
  shows "\<exists>m'. create_session m ip new_id now
                = (m', Inl (Raised Exception (rate_limit_message (max_concurrent_per_ip m))))
           \<and> rate_limit_message (max_concurrent_per_ip m)
               = ''Rate limit exceeded: Maximum '' @ str_int (max_concurrent_per_ip m)
                   @ '' concurrent sessions per IP''
           \<and> py_in (str_int (max_concurrent_per_ip m))
                (rate_limit_message (max_concurrent_per_ip m))
           \<and> sessions m' = sessions m
           \<and> snd (get_active_sessions_for_ip m ip) = listed_active m ip
           \<and> (tracking_ok m \<longrightarrow>
                 length (listed_active m ip) = active_count m ip \<and> tracking_ok m')"
proof -
  let ?m1 = "fst (get_active_sessions_for_ip m ip)"
  from assms have "max_concurrent_per_ip m \<le> int (length (filter (is_active m) (tracked m ip)))"
    by (simp add: listed_active_def)
  from create_session_refused [OF this]
  have c: "create_session m ip new_id now
             = (?m1, Inl (Raised Exception (rate_limit_message (max_concurrent_per_ip m))))" .
  have s: "sessions ?m1 = sessions m" by (rule check_frame)
  have l: "snd (get_active_sessions_for_ip m ip) = listed_active m ip"
    by (simp add: check_frame listed_active_def)
  have p: "py_in (str_int (max_concurrent_per_ip m)) (rate_limit_message (max_concurrent_per_ip m))"
    unfolding rate_limit_message_def by (rule py_in_append)
  have t: "tracking_ok m \<longrightarrow> length (listed_active m ip) = active_count m ip \<and> tracking_ok ?m1"
    by (simp add: listed_active_def active_list_count tracking_ok_check)
  from c s l p t show ?thesis
    by (simp add: rate_limit_message_def)
qed

theorem create_session_at_cap_witness:
  "max_concurrent_per_ip three_sessions \<le> int (length (listed_active three_sessions ''10.0.0.1''))
   \<and> tracking_ok three_sessions
   \<and> max_concurrent_per_ip three_sessions = 3
   \<and> (\<exists>m'. create_session three_sessions ''10.0.0.1'' ''session_d'' 4
              = (m', Inl (Raised Exception
                   ''Rate limit exceeded: Maximum 3 concurrent sessions per IP''))
          \<and> map fst (sessions m') = [''session_a'', ''session_b'', ''session_c'']
          \<and> length (listed_active three_sessions ''10.0.0.1'')
              = active_count three_sessions ''10.0.0.1''
          \<and> tracking_ok m')"
proof -
  let ?m0 = "new_session_manager 3 1"
  let ?m1 = "fst (create_session ?m0 ''10.0.0.1'' ''session_a'' 1)"
  let ?m2 = "fst (create_session ?m1 ''10.0.0.1'' ''session_b'' 2)"
  have k1: "map fst (sessions ?m1) = [''session_a'']"
    and k2: "map fst (sessions ?m2) = [''session_a'', ''session_b'']"
    and k3: "map fst (sessions three_sessions) = [''session_a'', ''session_b'', ''session_c'']"
    and cap: "max_concurrent_per_ip three_sessions = 3"
    and cnt: "length (listed_active three_sessions ''10.0.0.1'') = 3"
    and msg: "rate_limit_message 3 = ''Rate limit exceeded: Maximum 3 concurrent sessions per IP''"
    by code_simp+
  have f0: "''session_a'' \<notin> fst ` set (sessions ?m0)" by (simp add: new_session_manager_def)
  have f1: "''session_b'' \<notin> fst ` set (sessions ?m1)"
    using k1 by (simp only: set_map [symmetric]) simp
  have f2: "''session_c'' \<notin> fst ` set (sessions ?m2)"
    using k2 by (simp only: set_map [symmetric]) simp
  have "tracking_ok ?m1" using tracking_ok_new f0 by (rule tracking_ok_create)
  then have "tracking_ok ?m2" using f1 by (rule tracking_ok_create)
  then have "tracking_ok (fst (create_session ?m2 ''10.0.0.1'' ''session_c'' 3))"
    using f2 by (rule tracking_ok_create)
  then have ok: "tracking_ok three_sessions" by (simp only: three_sessions_def)
  have le: "max_concurrent_per_ip three_sessions \<le> int (length (listed_active three_sessions ''10.0.0.1''))"
    by (simp only: cap cnt)
  from create_session_at_cap [OF le, of "''session_d''" 4] obtain m' where
    r: "create_session three_sessions ''10.0.0.1'' ''session_d'' 4
       = (m', Inl (Raised Exception (rate_limit_message (max_concurrent_per_ip three_sessions))))
       \<and> rate_limit_message (max_concurrent_per_ip three_sessions)
               = ''Rate limit exceeded: Maximum '' @ str_int (max_concurrent_per_ip three_sessions)
                   @ '' concurrent sessions per IP''
       \<and> py_in (str_int (max_concurrent_per_ip three_sessions))
                (rate_limit_message (max_concurrent_per_ip three_sessions))
       \<and> sessions m' = sessions three_sessions
       \<and> snd (get_active_sessions_for_ip three_sessions ''10.0.0.1'')
           = listed_active three_sessions ''10.0.0.1''
       \<and> (tracking_ok three_sessions \<longrightarrow>
             length (listed_active three_sessions ''10.0.0.1'')
               = active_count three_sessions ''10.0.0.1'' \<and> tracking_ok m')"
    by (rule exE)
  note r1 = r [THEN conjunct1]
  note r4 = r [THEN conjunct2, THEN conjunct2, THEN conjunct2, THEN conjunct1]
  note r6 = r [THEN conjunct2, THEN conjunct2, THEN conjunct2, THEN conjunct2, THEN conjunct2,
    THEN mp, OF ok]
  have x: "create_session three_sessions ''10.0.0.1'' ''session_d'' 4
       = (m', Inl (Raised Exception ''Rate limit exceeded: Maximum 3 concurrent sessions per IP''))"
    using r1 by (simp only: cap msg)
  have y: "map fst (sessions m') = [''session_a'', ''session_b'', ''session_c'']"
    using k3 by (simp only: r4)
  have e: "\<exists>m'. create_session three_sessions ''10.0.0.1'' ''session_d'' 4
              = (m', Inl (Raised Exception
                   ''Rate limit exceeded: Maximum 3 concurrent sessions per IP''))
          \<and> map fst (sessions m') = [''session_a'', ''session_b'', ''session_c'']
          \<and> length (listed_active three_sessions ''10.0.0.1'')
              = active_count three_sessions ''10.0.0.1''
          \<and> tracking_ok m'"
    by (rule exI [where x = m'], rule conjI [OF x conjI [OF y r6]])
  show ?thesis
    by (rule conjI [OF le conjI [OF ok conjI [OF cap e]]])
qed

section \<open>Broadcasting\<close>

lemma send_all_result:
  "send_all raises msg conns
     = (map (\<lambda>ws. (ws, msg)) (filter (\<lambda>ws. \<not> raises ws) conns), filter raises conns)"
  by (induction conns) simp_all

lemma subscribers_disconnect:
  "subscribers (disconnect m sid ws) sid' =
     (if sid' = sid then remove1 ws (subscribers m sid) else subscribers m sid')"
proof (cases "map_of (active_connections m) sid")
  case None
  then show ?thesis by (simp add: disconnect_def subscribers_def)
next
  case (Some conns)
  have r: "(if ws \<in> set conns then remove1 ws conns else conns) = remove1 ws conns"
    by (simp add: remove1_idem)
  show ?thesis
  proof (cases "remove1 ws conns = []")
    case True
    with Some r show ?thesis
      by (simp add: disconnect_def subscribers_def Let_def delete_conv')
  next
    case False
    with Some r show ?thesis
      by (simp add: disconnect_def subscribers_def Let_def update_conv')
  qed
qed

lemma subscribers_fold_disconnect:
  "subscribers (fold (\<lambda>connection m'. disconnect m' sid connection) ds m) sid' =
     (if sid' = sid then fold remove1 ds (subscribers m sid) else subscribers m sid')"
  by (induction ds arbitrary: m) (simp_all add: subscribers_disconnect)

lemma fold_remove1_filter:
  "\<forall>y \<in> set ys. \<not> P y \<Longrightarrow>
     fold remove1 (filter P xs) (ys @ xs) = ys @ filter (\<lambda>x. \<not> P x) xs"
proof (induction xs arbitrary: ys)
  case Nil
  then show ?case by simp
next
  case (Cons x xs)
  show ?case
  proof (cases "P x")
    case True
    with Cons.prems have "x \<notin> set ys" by blast
    then have "remove1 x (ys @ x # xs) = ys @ xs" by (simp add: remove1_append)
    with True Cons.IH [OF Cons.prems] show ?thesis by simp
  next
    case False
    with Cons.prems have "\<forall>y \<in> set (ys @ [x]). \<not> P y" by simp
    from Cons.IH [OF this] False show ?thesis by simp
  qed
qed

lemma broadcast_result:
  assumes "map_of (active_connections m) sid = Some conns"
  shows "snd (broadcast m raises ts sid et data)
           = map (\<lambda>ws. (ws, event_message et sid data ts)) (filter (\<lambda>ws. \<not> raises ws) conns)"
    and "subscribers (fst (broadcast m raises ts sid et data)) sid'
           = (if sid' = sid then filter (\<lambda>ws. \<not> raises ws) conns else subscribers m sid')"
proof -
  from assms have s: "subscribers m sid = conns" by (simp add: subscribers_def)
  from fold_remove1_filter [of "[]" raises conns]
  have f: "fold remove1 (filter raises conns) conns = filter (\<lambda>ws. \<not> raises ws) conns" by simp
  show "snd (broadcast m raises ts sid et data)
           = map (\<lambda>ws. (ws, event_message et sid data ts)) (filter (\<lambda>ws. \<not> raises ws) conns)"
    using assms by (simp add: broadcast_def send_all_result)
  show "subscribers (fst (broadcast m raises ts sid et data)) sid'
           = (if sid' = sid then filter (\<lambda>ws. \<not> raises ws) conns else subscribers m sid')"
    using assms s f by (simp add: broadcast_def send_all_result subscribers_fold_disconnect)
qed



section \<open>Envelopes\<close>

lemma broadcast_delivers_event_message:
  assumes "x \<in> set (snd (broadcast m raises ts sid et data))"
  shows "snd x = event_message et sid data ts"
proof (cases "map_of (active_connections m) sid")
  case None
  with assms show ?thesis by (simp add: broadcast_def)
next
  case (Some conns)
  from assms show ?thesis
    unfolding broadcast_result(1) [OF Some] by auto
qed

lemma event_message_fields:
  "map fst (event_message et sid data ts) = envelope_keys"
  "map_of (event_message et sid data ts) ''event_type'' = Some (JString et)"
  "map_of (event_message et sid data ts) ''session_id'' = Some (JString sid)"
  "\<exists>d. map_of (event_message et sid data ts) ''data'' = Some (JObject d)"
  "map_of (event_message et sid data ts) ''timestamp'' = Some (JString ts)"
  by (simp_all add: event_message_def envelope_keys_def split: payload.splits)

text \<open>
  Claim C9, as stated, fails for the message sent on register: the acknowledgment is
  not an envelope of the fields \<open>event_type\<close>, \<open>session_id\<close>, \<open>data\<close>, \<open>timestamp\<close>. It
  carries a field \<open>message\<close> and no field \<open>data\<close>.
\<close>

theorem connection_acknowledgment_has_no_data_field:
  "snd (connect \<lparr> active_connections = [] \<rparr> never_fails ''t0'' ''s1'' 1)
     = [(1, connected_message ''s1'' ''t0'')]
   \<and> map fst (connected_message ''s1'' ''t0'')
       = [''event_type'', ''session_id'', ''message'', ''timestamp'']
   \<and> map fst (connected_message ''s1'' ''t0'') \<noteq> envelope_keys
   \<and> map_of (connected_message ''s1'' ''t0'') ''data'' = None"
  by (simp add: connect_def Let_def send_personal_message_def never_fails_def
      connected_message_def envelope_keys_def)

text \<open>
  Claim C9, amended. Every message delivered by \<open>broadcast\<close> is an envelope of exactly the
  fields \<open>event_type\<close>, \<open>session_id\<close>, \<open>data\<close>, \<open>timestamp\<close>, in this order, where
  \<open>event_type\<close> is the type passed, \<open>session_id\<close> the session, \<open>data\<close> an object and
  \<open>timestamp\<close> the clock; the four helpers pass the types \<open>new_thought\<close>,
  \<open>thinking_complete\<close>, \<open>solution_ready\<close> and \<open>error\<close>. The acknowledgment sent on
  register goes to the new connection alone and is a message of the fields \<open>event_type\<close>
  (\<open>connected\<close>), \<open>session_id\<close>, \<open>message\<close>, \<open>timestamp\<close>.
\<close>

theorem delivered_messages_are_envelopes:
  "(\<forall>x \<in> set (snd (broadcast m raises ts sid et data)).
      map fst (snd x) = envelope_keys
      \<and> map_of (snd x) ''event_type'' = Some (JString et)
      \<and> map_of (snd x) ''session_id'' = Some (JString sid)
      \<and> (\<exists>d. map_of (snd x) ''data'' = Some (JObject d))
      \<and> map_of (snd x) ''timestamp'' = Some (JString ts))
   \<and> (\<forall>x \<in> set (snd (broadcast_new_thought m raises ts sid node)).
        map fst (snd x) = envelope_keys
        \<and> map_of (snd x) ''event_type'' = Some (JString ''new_thought''))
   \<and> (\<forall>x \<in> set (snd (broadcast_thinking_complete m raises ts sid summary)).
        map fst (snd x) = envelope_keys
        \<and> map_of (snd x) ''event_type'' = Some (JString ''thinking_complete''))
   \<and> (\<forall>x \<in> set (snd (broadcast_solution_ready m raises ts sid solution)).
        map fst (snd x) = envelope_keys
        \<and> map_of (snd x) ''event_type'' = Some (JString ''solution_ready''))
   \<and> (\<forall>x \<in> set (snd (broadcast_error m raises ts sid text error_type)).
        map fst (snd x) = envelope_keys
        \<and> map_of (snd x) ''event_type'' = Some (JString ''error''))
   \<and> snd (connect m raises ts sid ws)
       = (if raises ws then [] else [(ws, connected_message sid ts)])
   \<and> map fst (connected_message sid ts)
       = [''event_type'', ''session_id'', ''message'', ''timestamp'']
   \<and> map_of (connected_message sid ts) ''event_type'' = Some (JString ''connected'')"
proof -
  have b: "map fst (snd x) = envelope_keys
      \<and> map_of (snd x) ''event_type'' = Some (JString et')
      \<and> map_of (snd x) ''session_id'' = Some (JString sid)
      \<and> (\<exists>d. map_of (snd x) ''data'' = Some (JObject d))
      \<and> map_of (snd x) ''timestamp'' = Some (JString ts)"
    if "x \<in> set (snd (broadcast m raises ts sid et' data'))" for x et' data'
    unfolding broadcast_delivers_event_message [OF that]
    using event_message_fields [of et' sid data' ts] by simp
  have c: "snd (connect m raises ts sid ws)
       = (if raises ws then [] else [(ws, connected_message sid ts)])"
    by (simp add: connect_def Let_def send_personal_message_def)
  have k: "map fst (connected_message sid ts)
       = [''event_type'', ''session_id'', ''message'', ''timestamp'']"
    "map_of (connected_message sid ts) ''event_type'' = Some (JString ''connected'')"
    by (simp_all add: connected_message_def)
  show ?thesis
    unfolding broadcast_new_thought_def broadcast_thinking_complete_def
      broadcast_solution_ready_def broadcast_error_def
    using b c k by (intro conjI ballI) (simp_all only:)
qed

theorem delivered_messages_are_envelopes_witness:
  "(2, event_message ''new_thought'' ''s1'' (Dict []) ''t2'')
     \<in> set (snd (broadcast_new_thought two_subscribers first_fails ''t2'' ''s1'' []))
   \<and> map fst (event_message ''new_thought'' ''s1'' (Dict []) ''t2'') = envelope_keys
   \<and> map_of (event_message ''new_thought'' ''s1'' (Dict []) ''t2'') ''event_type''
       = Some (JString ''new_thought'')"
proof -
  let ?msg = "event_message ''new_thought'' ''s1'' (Dict []) ''t2''"
  have a: "map_of (active_connections two_subscribers) ''s1'' = Some [1, 2]"
    by (simp add: two_subscribers_def connect_def Let_def)
  have "snd (broadcast two_subscribers first_fails ''t2'' ''s1'' ''new_thought'' (Dict []))
          = map (\<lambda>ws. (ws, ?msg)) (filter (\<lambda>ws. \<not> first_fails ws) [1, 2])"
    by (rule broadcast_result(1) [OF a])
  then have m: "(2, ?msg) \<in> set (snd (broadcast_new_thought two_subscribers first_fails ''t2'' ''s1'' []))"
    by (simp add: broadcast_new_thought_def first_fails_def)
  note t = delivered_messages_are_envelopes
    [where m = two_subscribers and raises = first_fails and ts = "''t2''" and sid = "''s1''"
       and node = "[]", THEN conjunct2, THEN conjunct1, THEN bspec, OF m]
  from t have k: "map fst ?msg = envelope_keys"
    and e: "map_of ?msg ''event_type'' = Some (JString ''new_thought'')"
    by (simp_all only: snd_conv)
  show ?thesis by (rule conjI [OF m conjI [OF k e]])
qed

end
